theory Spec2Isabelle
  imports Main "HOL-Library.Word" "HOL-Library.Multiset"
begin

section \<open>The XRT computation client: shared data model\<close>

text \<open>
  The embedding follows \<^verbatim>\<open>Sources/x10/xla_client/xrt_computation_client.cc\<close>.
  A failed \<^verbatim>\<open>XLA_CHECK\<close> (and every \<^verbatim>\<open>XLA_CHECK_xx\<close> variant), a failed
  \<^verbatim>\<open>std::map::at\<close> or \<^verbatim>\<open>std::vector::at\<close> and a failed status check of an RPC are
  values of the type \<open>error\<close>; a function that can fail returns \<open>error + 'a\<close>.
\<close>

datatype error =
    CheckFailure
  | OutOfRange
  | ComputationError
  | UndefinedBehaviour

text \<open>
  The checks of the client, \<^verbatim>\<open>at\<close> and the status checks raise C++ exceptions, which a
  caller can catch. \<open>UndefinedBehaviour\<close> stands for what no caller can catch: an index
  outside a vector, or a check inside the TensorFlow and XLA libraries, which ends the
  process.
\<close>

fun thrown :: "error \<Rightarrow> bool" where
  "thrown CheckFailure = True"
| "thrown OutOfRange = True"
| "thrown ComputationError = True"
| "thrown UndefinedBehaviour = False"

text \<open>
  An \<^verbatim>\<open>xla::Shape\<close> is an array shape (element type and dimensions) or a tuple of
  shapes; a default-constructed shape has the invalid element type and no dimensions.
  \<^verbatim>\<open>ShapeUtil::GetTupleElementShape\<close> checks that the shape is a tuple and that the index
  is below the element count.
\<close>

datatype PrimitiveType =
    PRIMITIVE_TYPE_INVALID
  | PRED | S8 | U8 | S16 | U16 | S32 | U32 | S64 | U64
  | F32 | F64 | BF16 | F16 | C64 | C128
  | TUPLE | OPAQUE_TYPE | TOKEN

datatype Shape =
    ArrayShape PrimitiveType "nat list"
  | TupleShape "Shape list"


fun element_type :: "Shape \<Rightarrow> PrimitiveType" where
  "element_type (ArrayShape ty dims) = ty"
| "element_type (TupleShape shapes) = TUPLE"

fun GetTupleElementShape :: "Shape \<Rightarrow> nat \<Rightarrow> error + Shape" where
  "GetTupleElementShape (TupleShape shapes) index =
     (if index < length shapes then Inr (shapes ! index) else Inl UndefinedBehaviour)"
| "GetTupleElementShape (ArrayShape ty dims) index = Inl UndefinedBehaviour"

text \<open>
  A \<^verbatim>\<open>TensorSource\<close> has a shape and a \<^verbatim>\<open>populate_fn\<close>; the field \<open>populate_fn\<close> is
  the bytes that the callback writes into the staging buffer. A server handle is an
  \<^verbatim>\<open>int64_t\<close>. An \<^verbatim>\<open>XrtData\<close> carries the name of its device, its shape and its handle.
\<close>

type_synonym handle = "64 word"

record TensorSource =
  shape :: Shape
  populate_fn :: string

record XrtData =
  data_device :: string
  data_shape :: Shape
  get_handle :: handle

text \<open>
  \<^verbatim>\<open>XrtComputationClient::Worker\<close> is a job name with a task number; \<^verbatim>\<open>Options\<close> carries
  the default device, the map from logical devices to XRT devices and the map from
  workers to RPC targets.
\<close>

type_synonym Worker = "string \<times> int"

record Options =
  default_device :: string
  global_device_map :: "string \<rightharpoonup> string"
  workers_map :: "Worker \<rightharpoonup> string"

subsection \<open>Device resolution\<close>

text \<open>\<^verbatim>\<open>std::string::find(char)\<close>: the position of the first occurrence, \<open>None\<close> for \<^verbatim>\<open>npos\<close>.\<close>

fun string_find :: "string \<Rightarrow> char \<Rightarrow> nat option" where
  "string_find [] c = None"
| "string_find (x # xs) c =
     (if x = c then Some 0 else map_option Suc (string_find xs c))"

definition GetEffectiveDevice :: "Options \<Rightarrow> string \<Rightarrow> error + string" where
  "GetEffectiveDevice opts device =
     (if device = [] then Inr (default_device opts)
      else if hd device = CHR '':'' then
        (case string_find (default_device opts) CHR '':'' of
           None \<Rightarrow> Inl CheckFailure
         | Some pos \<Rightarrow> Inr (take pos (default_device opts) @ device))
      else Inr device)"

section \<open>Partitioning a transfer\<close>

text \<open>
  \<^verbatim>\<open>PartitionTransferToServer\<close> walks the tensors with a \<^verbatim>\<open>uint64\<close> running size and an
  \<^verbatim>\<open>int64_t\<close> ceiling and tensor size. The comparison
  \<^verbatim>\<open>current_size + tensor_size > max_partition_size\<close> is made on unsigned 64-bit values,
  as the usual arithmetic conversions of C++ prescribe; \<open>(<)\<close> on \<open>64 word\<close> is that
  unsigned order and \<open>(+)\<close> wraps. The ceiling is what \<^verbatim>\<open>GetMaxTensorsPartitionSize\<close> reads
  from the environment (1800000000 by default). The loop \<open>partition_loop\<close> runs on the
  byte sizes \<^verbatim>\<open>ShapeUtil::ByteSizeOfElements(tensors[i].shape)\<close>, which
  \<open>PartitionTransferToServer\<close> computes with the function \<open>byte_size\<close> it is given.
\<close>

fun partition_loop ::
  "64 word \<Rightarrow> 64 word list \<Rightarrow> nat \<Rightarrow> 64 word \<Rightarrow> nat list \<Rightarrow> nat list" where
  "partition_loop max_partition_size [] i current_size partitions = partitions"
| "partition_loop max_partition_size (tensor_size # rest) i current_size partitions =
     (if max_partition_size < current_size + tensor_size then
        partition_loop max_partition_size rest (i + 1) (0 + tensor_size)
          ((if partitions = [] \<and> 0 < i then partitions @ [0] else partitions) @ [i])
      else
        partition_loop max_partition_size rest (i + 1) (current_size + tensor_size)
          partitions)"

definition partition_sizes :: "64 word \<Rightarrow> 64 word list \<Rightarrow> nat list" where
  "partition_sizes max_partition_size tensor_sizes =
     (let partitions = partition_loop max_partition_size tensor_sizes 0 0 []
      in if partitions = [] then [0] else partitions)"

definition PartitionTransferToServer ::
  "64 word \<Rightarrow> (Shape \<Rightarrow> 64 word) \<Rightarrow> TensorSource list \<Rightarrow> nat list" where
  "PartitionTransferToServer max_partition_size byte_size tensors =
     partition_sizes max_partition_size (map (\<lambda>t. byte_size (shape t)) tensors)"

text \<open>
  The tensors of partition \<open>k\<close>, as \<^verbatim>\<open>TransferToServer\<close> cuts them: from
  \<^verbatim>\<open>partitions[k]\<close> up to the next boundary, or to the end for the last partition.
\<close>

definition partition_base :: "nat list \<Rightarrow> nat \<Rightarrow> nat" where
  "partition_base partitions k = partitions ! k"

definition partition_length :: "nat list \<Rightarrow> nat \<Rightarrow> nat \<Rightarrow> nat" where
  "partition_length partitions n k =
     (if k + 1 < length partitions then partitions ! (k + 1) - partition_base partitions k
      else n - partition_base partitions k)"

definition subspan :: "'a list \<Rightarrow> nat \<Rightarrow> nat \<Rightarrow> 'a list" where
  "subspan xs base_index len = take len (drop base_index xs)"

definition partition_tensors :: "nat list \<Rightarrow> 'a list \<Rightarrow> nat \<Rightarrow> 'a list" where
  "partition_tensors partitions tensors k =
     subspan tensors (partition_base partitions k)
       (partition_length partitions (length tensors) k)"

text \<open>The summed byte size of a group of tensors, read as signed 64-bit sizes.\<close>

definition summed_size :: "(Shape \<Rightarrow> 64 word) \<Rightarrow> TensorSource list \<Rightarrow> int" where
  "summed_size byte_size tensors = (\<Sum>t\<leftarrow>tensors. sint (byte_size (shape t)))"

section \<open>The client, its environment and its sessions\<close>

text \<open>
  An \<^verbatim>\<open>XrtSession*\<close> is the address of a session object; the maps
  \<^verbatim>\<open>std::map<XrtSession*, ...>\<close> of the client are ordered by it. A
  \<^verbatim>\<open>tensorflow::Tensor\<close> that a session returns is an \<^verbatim>\<open>int64\<close> scalar, an \<^verbatim>\<open>int64\<close> vector
  or a string scalar; the accessors \<^verbatim>\<open>scalar<int64_t>()\<close> and \<^verbatim>\<open>scalar<tstring>()\<close> are
  defined on a tensor of one element of that type; on any other tensor they fail a
  check inside the TensorFlow library or read foreign memory.
\<close>

type_synonym session = nat

datatype tensor =
    Int64Scalar handle
  | Int64Vector "handle list"
  | StringScalar string

fun scalar_int64 :: "tensor \<Rightarrow> error + handle" where
  "scalar_int64 (Int64Scalar h) = Inr h"
| "scalar_int64 (Int64Vector hs) = Inl UndefinedBehaviour"
| "scalar_int64 (StringScalar s) = Inl UndefinedBehaviour"

fun scalar_tstring :: "tensor \<Rightarrow> error + string" where
  "scalar_tstring (StringScalar s) = Inr s"
| "scalar_tstring (Int64Scalar h) = Inl UndefinedBehaviour"
| "scalar_tstring (Int64Vector hs) = Inl UndefinedBehaviour"

text \<open>
  One \<^verbatim>\<open>session->Run\<close> call is a request and the response of the server. A request
  names the operation of the cached nodes it fetches and lists, in the order of the
  fetched nodes (\<^verbatim>\<open>outputs_handles\<close>), what is fed to the placeholder of each node. An
  \<open>ExecuteNode\<close> is one \<^verbatim>\<open>XRTExecute\<close> node with its three feeds; an
  \<open>XRTChainedExecuteOp\<close> is one operation of an \<^verbatim>\<open>XRTChainedExecutePlan\<close>, with the
  output index already shifted by one as the plan stores it.
\<close>

record ExecuteNode =
  exec_device :: string
  exec_computation_handle :: handle
  exec_explode_tuple :: bool
  exec_inputs :: "handle list"

datatype PlanInput = PlanInput nat nat

datatype PlanOutput = PlanOutput nat nat

datatype XRTChainedExecuteOp =
    PlanDataOp handle "PlanOutput list"
  | PlanComputationOp handle "PlanInput list" "PlanOutput list"

datatype request =
    XRTAllocateFromTensor "TensorSource list"
  | XRTReadLiteral "handle list"
  | XRTCompile "string list"
  | XRTExecute "ExecuteNode list"
  | XRTExecuteChained "XRTChainedExecuteOp list"
  | XRTReleaseAllocationHandle "handle list"
  | XRTReleaseCompilationHandle "handle list"

datatype response = Response (status_ok: bool) (outputs: "tensor list")

type_synonym rpc = "session \<times> request \<times> response"

text \<open>
  The client holds two session caches: \<^verbatim>\<open>session_cache_\<close> and \<^verbatim>\<open>alloc_session_cache_\<close>.
\<close>

datatype cache_kind = SessionCache | AllocSessionCache

text \<open>
  What the client takes from outside is collected in \<open>Env\<close>: the configured ceiling
  (\<^verbatim>\<open>GetMaxTensorsPartitionSize\<close>), \<^verbatim>\<open>ShapeUtil::ByteSizeOfElements\<close>, the parser of full
  device names (\<open>None\<close> when \<^verbatim>\<open>ParseFullXrtDevice\<close> fails its check), the session that a
  session cache hands out for a target to the \<open>j\<close>-th session map of a call, the server
  behind \<^verbatim>\<open>session->Run\<close> (a function of the calls made so far, of the session and of
  the request), the parser of literal protos, the capacity of the compilation cache,
  the serialisation of a computation (\<^verbatim>\<open>CreateXrtComputation\<close> followed by
  \<^verbatim>\<open>SerializeAsString\<close>, with the result shape of the program), the chained-execution
  switch \<^verbatim>\<open>XRT_SPLIT_CHAINED_EXEC\<close>, and whether the node cache of a session for an
  operation and a device is used up (\<^verbatim>\<open>cache->Empty()\<close>, a function of the calls made so
  far), and whether a caller still holds a reference to the compiled program with a
  given handle when the compilation cache drops its record.
\<close>

record Env =
  max_partition_size :: "64 word"
  ByteSizeOfElements :: "Shape \<Rightarrow> 64 word"
  ParseFullName :: "string \<Rightarrow> Worker option"
  CacheGetSession :: "cache_kind \<Rightarrow> nat \<Rightarrow> string \<Rightarrow> session"
  session_Run :: "rpc list \<Rightarrow> session \<Rightarrow> request \<Rightarrow> response"
  LiteralFromProto :: "string \<Rightarrow> string option"
  compilation_cache_size :: nat
  CreateXrtComputation :: "string \<Rightarrow> string list \<Rightarrow> Shape option \<Rightarrow> error + string \<times> Shape"
  split_mode :: bool
  NodeCacheEmpty :: "rpc list \<Rightarrow> session \<Rightarrow> string \<Rightarrow> string \<Rightarrow> bool"
  caller_holds :: "rpc list \<Rightarrow> handle \<Rightarrow> bool"

text \<open>
  A pending release is a \<^verbatim>\<open>DeviceHandle\<close>: a device name and a handle. An
  \<^verbatim>\<open>XrtComputation\<close> carries the source computation, the result shape of its program,
  its devices, its handle and the device it was compiled for.
\<close>

record DeviceHandle =
  dh_device :: string
  dh_handle :: handle

record XrtComputation =
  computation_source :: string
  program_shape_result :: Shape
  computation_devices :: "string list"
  computation_handle :: handle
  compilation_device :: string

type_synonym CompilationCacheKey = "string \<times> string"

text \<open>
  The closures that the client hands to the thread pools, by what they do: a sender
  transfers one partition, a converter fills one staging buffer, a builder prepares
  one program for compilation, a runner issues the RPC of one session.
\<close>

datatype closure = Sender | Converter | Builder | Runner

text \<open>
  The state of the client: its options, the two lists of pending releases, the
  compilation cache (most recently used first), the counters of the metrics, the
  number of activations of the handle releaser, the closures scheduled so far, and
  the log of the \<^verbatim>\<open>session->Run\<close> calls made so far.
\<close>

record Client =
  options :: Options
  released_data_handles :: "DeviceHandle list"
  released_compile_handles :: "DeviceHandle list"
  compilation_cache :: "(CompilationCacheKey \<times> XrtComputation) list"
  counters :: "string \<Rightarrow> nat"
  activations :: nat
  scheduled :: "closure list"
  rpc_log :: "rpc list"

definition Run :: "Env \<Rightarrow> session \<Rightarrow> request \<Rightarrow> Client \<Rightarrow> response \<times> Client" where
  "Run env session req c =
     (let resp = session_Run env (rpc_log c) session req
      in (resp, c\<lparr>rpc_log := rpc_log c @ [(session, req, resp)]\<rparr>))"

definition AddValue :: "string \<Rightarrow> nat \<Rightarrow> Client \<Rightarrow> Client" where
  "AddValue name n c = c\<lparr>counters := (counters c)(name := counters c name + n)\<rparr>"

definition Schedule :: "closure list \<Rightarrow> Client \<Rightarrow> Client" where
  "Schedule cls c = c\<lparr>scheduled := scheduled c @ cls\<rparr>"

text \<open>The calls that a function added to the log of a client that had \<open>n\<close> calls before.\<close>

definition new_rpcs :: "Client \<Rightarrow> Client \<Rightarrow> rpc list" where
  "new_rpcs c c' = drop (length (rpc_log c)) (rpc_log c')"

subsection \<open>From a device to its session\<close>

definition SwiftDeviceToXrtDevice :: "Options \<Rightarrow> string \<Rightarrow> error + string" where
  "SwiftDeviceToXrtDevice opts device =
     (case GetEffectiveDevice opts device of
        Inl e \<Rightarrow> Inl e
      | Inr effective \<Rightarrow>
          (case global_device_map opts effective of
             None \<Rightarrow> Inl CheckFailure
           | Some xrt_device \<Rightarrow> Inr xrt_device))"

definition GetWorkerForXrtDevice :: "Env \<Rightarrow> Options \<Rightarrow> string \<Rightarrow> error + Worker \<times> string" where
  "GetWorkerForXrtDevice env opts xrt_device =
     (case ParseFullName env xrt_device of
        None \<Rightarrow> Inl CheckFailure
      | Some worker \<Rightarrow>
          (case workers_map opts worker of
             None \<Rightarrow> Inl CheckFailure
           | Some hostport \<Rightarrow> Inr (worker, hostport)))"

definition GetWorkerForDevice :: "Env \<Rightarrow> Options \<Rightarrow> string \<Rightarrow> error + Worker \<times> string" where
  "GetWorkerForDevice env opts device =
     (case SwiftDeviceToXrtDevice opts device of
        Inl e \<Rightarrow> Inl e
      | Inr xrt_device \<Rightarrow> GetWorkerForXrtDevice env opts xrt_device)"

definition GetResourceDomain :: "Env \<Rightarrow> Options \<Rightarrow> string \<Rightarrow> error + string" where
  "GetResourceDomain env opts device = map_sum id snd (GetWorkerForDevice env opts device)"

text \<open>
  Modelled from the spec: \<^verbatim>\<open>XrtSessionCache::GetSession(target, session_map)\<close>, whose
  header is not among the sources. The specification has one session per target, and
  later calls for a target return the instance that the first call made: a session map
  keeps the session of every target it was asked for, and asks the cache for a target
  it does not have yet.
\<close>

type_synonym SessionMap = "(string \<times> session) list"

definition GetSessionForTarget ::
  "Env \<Rightarrow> cache_kind \<Rightarrow> nat \<Rightarrow> string \<Rightarrow> SessionMap \<Rightarrow> session \<times> SessionMap" where
  "GetSessionForTarget env cache j target session_map =
     (case map_of session_map target of
        Some session \<Rightarrow> (session, session_map)
      | None \<Rightarrow>
          (let session = CacheGetSession env cache j target
           in (session, session_map @ [(target, session)])))"

definition GetSessionForXrtDevice ::
  "Env \<Rightarrow> Options \<Rightarrow> cache_kind \<Rightarrow> nat \<Rightarrow> string \<Rightarrow> SessionMap \<Rightarrow> error + session \<times> SessionMap" where
  "GetSessionForXrtDevice env opts cache j xrt_device session_map =
     (case GetWorkerForXrtDevice env opts xrt_device of
        Inl e \<Rightarrow> Inl e
      | Inr worker_hostport \<Rightarrow>
          Inr (GetSessionForTarget env cache j (snd worker_hostport) session_map))"

definition GetSessionForDevice ::
  "Env \<Rightarrow> Options \<Rightarrow> cache_kind \<Rightarrow> nat \<Rightarrow> string \<Rightarrow> SessionMap \<Rightarrow> error + session \<times> SessionMap" where
  "GetSessionForDevice env opts cache j device session_map =
     (case SwiftDeviceToXrtDevice opts device of
        Inl e \<Rightarrow> Inl e
      | Inr xrt_device \<Rightarrow> GetSessionForXrtDevice env opts cache j xrt_device session_map)"

text \<open>
  \<^verbatim>\<open>m[session].push_back(x)\<close> on a \<^verbatim>\<open>std::map\<close> from sessions to vectors: the map is kept
  in the order of its keys, and iterating it visits the sessions in that order.
\<close>

fun map_push_back :: "session \<Rightarrow> 'a \<Rightarrow> (session \<times> 'a list) list \<Rightarrow> (session \<times> 'a list) list" where
  "map_push_back session x [] = [(session, [x])]"
| "map_push_back session x ((s, xs) # m) =
     (if session = s then (s, xs @ [x]) # m
      else if session < s then (session, [x]) # (s, xs) # m
      else (s, xs) # map_push_back session x m)"

section \<open>Releasing handles\<close>

text \<open>
  \<^verbatim>\<open>ReleaseHandle\<close> appends to one of the two pending lists of the client, which the
  source passes by pointer and \<open>handle_kind\<close> names here, and activates the releaser
  task. \<^verbatim>\<open>ReleaseXrtData\<close> and \<^verbatim>\<open>ReleaseXrtComputation\<close> are what the releaser closure of
  a handle calls.
\<close>

datatype handle_kind = DataHandles | CompileHandles

fun pending :: "handle_kind \<Rightarrow> Client \<Rightarrow> DeviceHandle list" where
  "pending DataHandles c = released_data_handles c"
| "pending CompileHandles c = released_compile_handles c"

fun set_pending :: "handle_kind \<Rightarrow> DeviceHandle list \<Rightarrow> Client \<Rightarrow> Client" where
  "set_pending DataHandles hs c = c\<lparr>released_data_handles := hs\<rparr>"
| "set_pending CompileHandles hs c = c\<lparr>released_compile_handles := hs\<rparr>"

definition ReleaseHandle :: "handle \<Rightarrow> string \<Rightarrow> handle_kind \<Rightarrow> Client \<Rightarrow> Client" where
  "ReleaseHandle h device handles c =
     (let c1 = set_pending handles (pending handles c @ [\<lparr>dh_device = device, dh_handle = h\<rparr>]) c
      in c1\<lparr>activations := activations c1 + 1\<rparr>)"

definition ReleaseXrtData :: "string \<Rightarrow> handle \<Rightarrow> Client \<Rightarrow> Client" where
  "ReleaseXrtData device h c =
     AddValue ''ReleaseDataHandles'' 1 (ReleaseHandle h device DataHandles c)"

definition ReleaseXrtComputation :: "string \<Rightarrow> handle \<Rightarrow> Client \<Rightarrow> Client" where
  "ReleaseXrtComputation compilation_dev h c =
     AddValue ''ReleaseCompileHandles'' 1 (ReleaseHandle h compilation_dev CompileHandles c)"

text \<open>
  Modelled from the spec: the reference-counted release token of a device handle
  (\<^verbatim>\<open>XrtHandle\<close> behind a \<^verbatim>\<open>std::shared_ptr\<close>; its declaration is in the header, which is
  not among the sources). The specification queues the handle for release when the
  last token is destroyed, and sharing a token does not register anything. A token is
  the device, the handle and the number of references to it; dropping a reference
  calls the releaser when it was the last one.
\<close>

record XrtHandle =
  token_device :: string
  token_handle :: handle
  use_count :: nat

definition drop_reference :: "XrtHandle \<Rightarrow> Client \<Rightarrow> XrtHandle \<times> Client" where
  "drop_reference token c =
     (if use_count token = 1
      then (token\<lparr>use_count := 0\<rparr>, ReleaseXrtData (token_device token) (token_handle token) c)
      else (token\<lparr>use_count := use_count token - 1\<rparr>, c))"

text \<open>
  \<^verbatim>\<open>ReleaseHandles\<close> swaps the pending list out, groups the handles by session and
  issues one release RPC per session, each under \<^verbatim>\<open>XLA_CHECK_OK\<close>; the destroy counter
  is raised after the last RPC. The operation of the RPC and the counter are those
  that \<^verbatim>\<open>HandleReleaser\<close> passes for the list. The node of the RPC comes from
  \<^verbatim>\<open>op_generator\<close>, that is from \<^verbatim>\<open>GetReleaseAllocationHandleNode\<close> or
  \<^verbatim>\<open>GetReleaseCompileHandleNode\<close>, which counts under the name of the operation followed
  by \<open>_Empty\<close> when the node cache of the session is used up and a node has to be made.
\<close>

fun release_op_name :: "handle_kind \<Rightarrow> string" where
  "release_op_name DataHandles = ''XrtReleaseAllocationHandle''"
| "release_op_name CompileHandles = ''XrtReleaseCompileHandle''"

definition op_generator :: "Env \<Rightarrow> handle_kind \<Rightarrow> session \<Rightarrow> string \<Rightarrow> Client \<Rightarrow> Client" where
  "op_generator env handles session device c =
     (if NodeCacheEmpty env (rpc_log c) session (release_op_name handles) device
      then AddValue (release_op_name handles @ ''_Empty'') 1 c
      else c)"

fun release_request :: "handle_kind \<Rightarrow> handle list \<Rightarrow> request" where
  "release_request DataHandles hs = XRTReleaseAllocationHandle hs"
| "release_request CompileHandles hs = XRTReleaseCompilationHandle hs"

fun destroy_counter :: "handle_kind \<Rightarrow> string" where
  "destroy_counter DataHandles = ''DestroyDataHandles''"
| "destroy_counter CompileHandles = ''DestroyCompileHandles''"

fun session_handles_map ::
  "Env \<Rightarrow> Options \<Rightarrow> DeviceHandle list \<Rightarrow> SessionMap \<Rightarrow> (session \<times> DeviceHandle list) list
     \<Rightarrow> error + (session \<times> DeviceHandle list) list" where
  "session_handles_map env opts [] session_map m = Inr m"
| "session_handles_map env opts (h # released) session_map m =
     (case GetSessionForDevice env opts SessionCache 0 (dh_device h) session_map of
        Inl e \<Rightarrow> Inl e
      | Inr (session, session_map') \<Rightarrow>
          session_handles_map env opts released session_map' (map_push_back session h m))"

fun release_sessions ::
  "Env \<Rightarrow> handle_kind \<Rightarrow> (session \<times> DeviceHandle list) list \<Rightarrow> Client \<Rightarrow> (error + unit) \<times> Client" where
  "release_sessions env handles [] c = (Inr (), c)"
| "release_sessions env handles ((session, session_handles) # rest) c =
     (case session_handles of
        [] \<Rightarrow> (Inl UndefinedBehaviour, c)
      | front # _ \<Rightarrow>
          (case SwiftDeviceToXrtDevice (options c) (dh_device front) of
             Inl e \<Rightarrow> (Inl e, c)
           | Inr xrt_device \<Rightarrow>
               (case Run env session (release_request handles (map dh_handle session_handles))
                       (op_generator env handles session (dh_device front) c) of
                  (resp, c') \<Rightarrow>
                    if status_ok resp then release_sessions env handles rest c'
                    else (Inl CheckFailure, c'))))"

definition ReleaseHandles :: "Env \<Rightarrow> handle_kind \<Rightarrow> Client \<Rightarrow> (error + unit) \<times> Client" where
  "ReleaseHandles env handles c =
     (let released_handles = pending handles c;
          c1 = set_pending handles [] c
      in if released_handles \<noteq> [] then
           (case session_handles_map env (options c1) released_handles [] [] of
              Inl e \<Rightarrow> (Inl e, c1)
            | Inr m \<Rightarrow>
                (case release_sessions env handles m c1 of
                   (Inl e, c2) \<Rightarrow> (Inl e, c2)
                 | (Inr u, c2) \<Rightarrow>
                     (Inr (), AddValue (destroy_counter handles) (length released_handles) c2)))
         else (Inr (), c1))"

definition HandleReleaser :: "Env \<Rightarrow> Client \<Rightarrow> (error + unit) \<times> Client" where
  "HandleReleaser env c =
     (case ReleaseHandles env DataHandles c of
        (Inl e, c1) \<Rightarrow> (Inl e, c1)
      | (Inr u, c1) \<Rightarrow> ReleaseHandles env CompileHandles c1)"

section \<open>Transfers to and from the server\<close>

text \<open>
  \<^verbatim>\<open>XlaTypeToDataType\<close> maps the fifteen element types that have a TensorFlow data type
  and ends in \<^verbatim>\<open>XLA_ERROR\<close> for any other.
\<close>

fun XlaTypeToDataType :: "PrimitiveType \<Rightarrow> error + string" where
  "XlaTypeToDataType PRED = Inr ''DT_BOOL''"
| "XlaTypeToDataType S8 = Inr ''DT_INT8''"
| "XlaTypeToDataType U8 = Inr ''DT_UINT8''"
| "XlaTypeToDataType S16 = Inr ''DT_INT16''"
| "XlaTypeToDataType U16 = Inr ''DT_UINT16''"
| "XlaTypeToDataType S32 = Inr ''DT_INT32''"
| "XlaTypeToDataType U32 = Inr ''DT_UINT32''"
| "XlaTypeToDataType S64 = Inr ''DT_INT64''"
| "XlaTypeToDataType U64 = Inr ''DT_UINT64''"
| "XlaTypeToDataType F32 = Inr ''DT_FLOAT''"
| "XlaTypeToDataType F64 = Inr ''DT_DOUBLE''"
| "XlaTypeToDataType BF16 = Inr ''DT_BFLOAT16''"
| "XlaTypeToDataType F16 = Inr ''DT_HALF''"
| "XlaTypeToDataType C64 = Inr ''DT_COMPLEX64''"
| "XlaTypeToDataType C128 = Inr ''DT_COMPLEX128''"
| "XlaTypeToDataType PRIMITIVE_TYPE_INVALID = Inl CheckFailure"
| "XlaTypeToDataType TUPLE = Inl CheckFailure"
| "XlaTypeToDataType OPAQUE_TYPE = Inl CheckFailure"
| "XlaTypeToDataType TOKEN = Inl CheckFailure"

text \<open>
  A \<^verbatim>\<open>SessionWork\<close> has the vectors \<^verbatim>\<open>feed_inputs\<close>, \<^verbatim>\<open>outputs_handles\<close> and
  \<^verbatim>\<open>index_mapping\<close>, which every user extends together, under the lock, by one entry
  for one cached node: what is fed to the placeholder of the node, the output of the
  node, and the index of the item in the batch. It is kept here as the list of the
  pairs of a feed and an index; the \<open>k\<close>-th fetched output is the one of the \<open>k\<close>-th
  pair. The map \<^verbatim>\<open>session_work_map\<close> is a \<^verbatim>\<open>std::map\<close> ordered by session.
\<close>

type_synonym 'f SessionWork = "('f \<times> nat) list"

definition feed_inputs :: "'f SessionWork \<Rightarrow> 'f list" where
  "feed_inputs session_work = map fst session_work"

definition index_mapping :: "'f SessionWork \<Rightarrow> nat list" where
  "index_mapping session_work = map snd session_work"

subsection \<open>\<^verbatim>\<open>TransferToServerInternal\<close>\<close>

text \<open>
  The converter closures run on the thread pool; each does its work on the shared
  maps in one critical section. The order in which they enter it is the list \<open>order\<close>
  of tensor indices, which the caller of the model chooses. \<open>converter\<close> is the
  closure of tensor \<open>i\<close>; \<open>j\<close> numbers the session map of this call.
\<close>

definition converter ::
  "Env \<Rightarrow> Options \<Rightarrow> nat \<Rightarrow> string \<Rightarrow> TensorSource list \<Rightarrow> nat
     \<Rightarrow> SessionMap \<times> (session \<times> TensorSource SessionWork) list
     \<Rightarrow> error + SessionMap \<times> (session \<times> TensorSource SessionWork) list" where
  "converter env opts j device tensors i maps =
     (case SwiftDeviceToXrtDevice opts device of
        Inl e \<Rightarrow> Inl e
      | Inr xrt_device \<Rightarrow>
          (case XlaTypeToDataType (element_type (shape (tensors ! i))) of
             Inl e \<Rightarrow> Inl e
           | Inr data_type \<Rightarrow>
               (case GetSessionForXrtDevice env opts AllocSessionCache j xrt_device (fst maps) of
                  Inl e \<Rightarrow> Inl e
                | Inr (session, session_map') \<Rightarrow>
                    Inr (session_map', map_push_back session (tensors ! i, i) (snd maps)))))"

text \<open>
  Modelled from the spec: the multi-wait barrier (\<^verbatim>\<open>util::MultiWait\<close>, which is not among
  the sources) lets the caller block until every closure has signalled completion. A
  closure that raises an exception has completed, so the closures after it run all
  the same, and \<^verbatim>\<open>Wait\<close> raises the exception again in the caller; of several, the one
  raised last is taken here. \<open>run_converters\<close> runs the converters while none has
  failed, \<open>converters_failed\<close> runs the remaining ones after a failure and gives the
  exception that reaches the caller.
\<close>

fun converters_failed ::
  "Env \<Rightarrow> Options \<Rightarrow> nat \<Rightarrow> string \<Rightarrow> TensorSource list \<Rightarrow> nat list
     \<Rightarrow> SessionMap \<times> (session \<times> TensorSource SessionWork) list \<Rightarrow> error \<Rightarrow> error" where
  "converters_failed env opts j device tensors [] maps e = e"
| "converters_failed env opts j device tensors (i # order) maps e =
     (if length tensors \<le> i then UndefinedBehaviour
      else
        (case converter env opts j device tensors i maps of
           Inl e' \<Rightarrow>
             if thrown e' then converters_failed env opts j device tensors order maps e'
             else e'
         | Inr maps' \<Rightarrow> converters_failed env opts j device tensors order maps' e))"

fun run_converters ::
  "Env \<Rightarrow> Options \<Rightarrow> nat \<Rightarrow> string \<Rightarrow> TensorSource list \<Rightarrow> nat list
     \<Rightarrow> SessionMap \<times> (session \<times> TensorSource SessionWork) list
     \<Rightarrow> error + SessionMap \<times> (session \<times> TensorSource SessionWork) list" where
  "run_converters env opts j device tensors [] maps = Inr maps"
| "run_converters env opts j device tensors (i # order) maps =
     (if length tensors \<le> i then Inl UndefinedBehaviour
      else
        (case converter env opts j device tensors i maps of
           Inl e \<Rightarrow>
             Inl (if thrown e then converters_failed env opts j device tensors order maps e
                  else e)
         | Inr maps' \<Rightarrow> run_converters env opts j device tensors order maps'))"

text \<open>
  The loop of a runner over the outputs of its RPC:
  \<^verbatim>\<open>results[index_mapping[i]] = XrtData(device_ptr, tensors[li].shape, outputs[i].scalar())\<close>.
\<close>

fun store_handles ::
  "string \<Rightarrow> TensorSource list \<Rightarrow> tensor list \<Rightarrow> nat list \<Rightarrow> XrtData option list
     \<Rightarrow> error + XrtData option list" where
  "store_handles device_name tensors [] mapping results = Inr results"
| "store_handles device_name tensors (out # outs) [] results = Inl UndefinedBehaviour"
| "store_handles device_name tensors (out # outs) (li # mapping) results =
     (if length results \<le> li \<or> length tensors \<le> li then Inl UndefinedBehaviour
      else
        (case scalar_int64 out of
           Inl e \<Rightarrow> Inl e
         | Inr h \<Rightarrow>
             store_handles device_name tensors outs mapping
               (results[li := Some \<lparr>data_device = device_name,
                   data_shape = shape (tensors ! li), get_handle = h\<rparr>])))"

definition transfer_runner ::
  "Env \<Rightarrow> string \<Rightarrow> TensorSource list \<Rightarrow> session \<Rightarrow> TensorSource SessionWork
     \<Rightarrow> XrtData option list \<Rightarrow> Client \<Rightarrow> (error + XrtData option list) \<times> Client" where
  "transfer_runner env device_name tensors session session_work results c =
     (case Run env session (XRTAllocateFromTensor (feed_inputs session_work)) c of
        (resp, c') \<Rightarrow>
          if \<not> status_ok resp then (Inl CheckFailure, c')
          else if length (outputs resp) \<noteq> length session_work then (Inl CheckFailure, c')
          else
            (case store_handles device_name tensors (outputs resp)
                    (index_mapping session_work) results of
               Inl e \<Rightarrow> (Inl e, c')
             | Inr results' \<Rightarrow>
                 (Inr results', AddValue ''CreateDataHandles'' (length (outputs resp)) c')))"

text \<open>
  The runners of the sessions are closures under the same barrier. The exception that
  reaches the caller unwinds it, which destroys its vector \<^verbatim>\<open>results\<close>: every device
  handle that a runner has stored there loses its last reference and is queued for
  release, taken here in the order of the slots. \<open>run_transfer_runners\<close> runs the
  runners one after the other while none has failed, \<open>transfer_runners_failed\<close> runs
  the remaining ones after a failure.
\<close>

definition release_results :: "XrtData option list \<Rightarrow> Client \<Rightarrow> Client" where
  "release_results results c =
     fold (\<lambda>slot c'. case slot of
                        None \<Rightarrow> c'
                      | Some xrt_data \<Rightarrow>
                          ReleaseXrtData (data_device xrt_data) (get_handle xrt_data) c')
       results c"

fun transfer_runners_failed ::
  "Env \<Rightarrow> string \<Rightarrow> TensorSource list \<Rightarrow> (session \<times> TensorSource SessionWork) list
     \<Rightarrow> XrtData option list \<Rightarrow> error \<Rightarrow> Client \<Rightarrow> (error + XrtData option list) \<times> Client" where
  "transfer_runners_failed env device_name tensors [] results e c =
     (Inl e, release_results results c)"
| "transfer_runners_failed env device_name tensors ((session, session_work) # rest) results e c =
     (case transfer_runner env device_name tensors session session_work results c of
        (Inl e', c') \<Rightarrow>
          if thrown e' then transfer_runners_failed env device_name tensors rest results e' c'
          else (Inl e', c')
      | (Inr results', c') \<Rightarrow>
          transfer_runners_failed env device_name tensors rest results' e c')"

fun run_transfer_runners ::
  "Env \<Rightarrow> string \<Rightarrow> TensorSource list \<Rightarrow> (session \<times> TensorSource SessionWork) list
     \<Rightarrow> XrtData option list \<Rightarrow> Client \<Rightarrow> (error + XrtData option list) \<times> Client" where
  "run_transfer_runners env device_name tensors [] results c = (Inr results, c)"
| "run_transfer_runners env device_name tensors ((session, session_work) # rest) results c =
     (case transfer_runner env device_name tensors session session_work results c of
        (Inl e, c') \<Rightarrow>
          if thrown e then transfer_runners_failed env device_name tensors rest results e c'
          else (Inl e, c')
      | (Inr results', c') \<Rightarrow> run_transfer_runners env device_name tensors rest results' c')"

definition TransferToServerInternal ::
  "Env \<Rightarrow> nat list \<Rightarrow> nat \<Rightarrow> string \<Rightarrow> TensorSource list \<Rightarrow> Client
     \<Rightarrow> (error + XrtData option list) \<times> Client" where
  "TransferToServerInternal env order j device_name tensors c =
     (case GetEffectiveDevice (options c) device_name of
        Inl e \<Rightarrow> (Inl e, c)
      | Inr device \<Rightarrow>
          (let c1 = Schedule (replicate (length tensors) Converter) c
           in case run_converters env (options c) j device tensors order ([], []) of
                Inl e \<Rightarrow> (Inl e, c1)
              | Inr maps \<Rightarrow>
                  run_transfer_runners env device_name tensors (snd maps)
                    (replicate (length tensors) None)
                    (Schedule (replicate (length (snd maps)) Runner) c1)))"

subsection \<open>\<^verbatim>\<open>TransferToServer\<close>\<close>

text \<open>
  With more than one partition, one sender closure per partition runs on the I/O
  pool. A sender touches the state it shares with the other senders in its RPC and
  in its writes to its own slots of \<^verbatim>\<open>results\<close>, so the senders are run here one after
  the other, in the order \<open>partition_order\<close> that the caller of the model chooses;
  \<open>converter_order\<close> gives the order of the converters of each partition. The
  subtractions on \<^verbatim>\<open>size_t\<close> are those of \<open>partition_length\<close>.
\<close>

record Schedule =
  partition_order :: "nat list"
  converter_order :: "nat \<Rightarrow> nat list"

definition copy_results ::
  "nat \<Rightarrow> nat \<Rightarrow> XrtData option list \<Rightarrow> XrtData option list \<Rightarrow> XrtData option list" where
  "copy_results base_index len partitions_results results =
     fold (\<lambda>r res. res[base_index + r := partitions_results ! r]) [0..<len] results"

text \<open>
  A sender whose transfer fails has written none of its slots. Every sender is
  scheduled before the caller waits, so the senders after a failed one still make
  their transfers; when the last has completed, the failure reaches the caller and the
  handles that the other senders stored in \<^verbatim>\<open>results\<close> are queued for release.
  \<open>senders_failed\<close> runs the senders that remain after a failure.
\<close>

fun senders_failed ::
  "Env \<Rightarrow> Schedule \<Rightarrow> string \<Rightarrow> TensorSource list \<Rightarrow> nat list \<Rightarrow> nat list
     \<Rightarrow> XrtData option list \<Rightarrow> error \<Rightarrow> Client \<Rightarrow> (error + XrtData option list) \<times> Client" where
  "senders_failed env sched device_name tensors partitions [] results e c =
     (Inl e, release_results results c)"
| "senders_failed env sched device_name tensors partitions (i # rest) results e c =
     (if length partitions \<le> i then (Inl UndefinedBehaviour, c)
      else
        (let base_index = partition_base partitions i;
             len = partition_length partitions (length tensors) i
         in case TransferToServerInternal env (converter_order sched i) i device_name
                   (subspan tensors base_index len) c of
              (Inl e', c') \<Rightarrow>
                if thrown e' then
                  senders_failed env sched device_name tensors partitions rest results e' c'
                else (Inl e', c')
            | (Inr partitions_results, c') \<Rightarrow>
                senders_failed env sched device_name tensors partitions rest
                  (copy_results base_index len partitions_results results) e c'))"

fun run_senders ::
  "Env \<Rightarrow> Schedule \<Rightarrow> string \<Rightarrow> TensorSource list \<Rightarrow> nat list \<Rightarrow> nat list
     \<Rightarrow> XrtData option list \<Rightarrow> Client \<Rightarrow> (error + XrtData option list) \<times> Client" where
  "run_senders env sched device_name tensors partitions [] results c = (Inr results, c)"
| "run_senders env sched device_name tensors partitions (i # rest) results c =
     (if length partitions \<le> i then (Inl UndefinedBehaviour, c)
      else
        (let base_index = partition_base partitions i;
             len = partition_length partitions (length tensors) i
         in case TransferToServerInternal env (converter_order sched i) i device_name
                   (subspan tensors base_index len) c of
              (Inl e, c') \<Rightarrow>
                if thrown e then
                  senders_failed env sched device_name tensors partitions rest results e c'
                else (Inl e, c')
            | (Inr partitions_results, c') \<Rightarrow>
                run_senders env sched device_name tensors partitions rest
                  (copy_results base_index len partitions_results results) c'))"

definition TransferToServer ::
  "Env \<Rightarrow> Schedule \<Rightarrow> string \<Rightarrow> TensorSource list \<Rightarrow> Client
     \<Rightarrow> (error + XrtData option list) \<times> Client" where
  "TransferToServer env sched device_name tensors c =
     (let partitions =
        PartitionTransferToServer (max_partition_size env) (ByteSizeOfElements env) tensors
      in if length partitions = 1 then
           TransferToServerInternal env (converter_order sched 0) 0 device_name tensors c
         else
           run_senders env sched device_name tensors partitions (partition_order sched)
             (replicate (length tensors) None)
             (Schedule (replicate (length partitions) Sender)
                (AddValue ''XrtPartitionedTransferToServer'' 1 c)))"

text \<open>
  A schedule is one of the runs that the pools can produce when every sender runs
  once and every converter of a partition runs once.
\<close>

definition valid_schedule :: "Schedule \<Rightarrow> nat list \<Rightarrow> nat \<Rightarrow> bool" where
  "valid_schedule sched partitions n \<longleftrightarrow>
     sort (partition_order sched) = [0..<length partitions] \<and>
     list_all (\<lambda>i. sort (converter_order sched i) = [0..<partition_length partitions n i])
       [0..<length partitions]"

subsection \<open>\<^verbatim>\<open>TransferFromServerImpl\<close>\<close>

text \<open>
  The loop over the handles opens a new session map when the running size reaches
  the ceiling (a comparison of \<^verbatim>\<open>int64_t\<close> values, signed) and files every handle under
  the session of its device in the current session map. \<open>j\<close> is the number of the
  current session map.
\<close>

fun from_server_work ::
  "Env \<Rightarrow> Options \<Rightarrow> XrtData list \<Rightarrow> nat \<Rightarrow> 64 word \<Rightarrow> nat \<Rightarrow> SessionMap
     \<Rightarrow> (session \<times> handle SessionWork) list \<Rightarrow> error + (session \<times> handle SessionWork) list" where
  "from_server_work env opts [] i current_size j session_map m = Inr m"
| "from_server_work env opts (xrt_data # rest) i current_size j session_map m =
     (let shape_size = ByteSizeOfElements env (data_shape xrt_data);
          fresh = (sint (max_partition_size env) \<le> sint (current_size + shape_size));
          j' = (if fresh then j + 1 else j);
          session_map' = (if fresh then [] else session_map);
          current_size' = (if fresh then 0 else current_size) + shape_size
      in case GetSessionForDevice env opts SessionCache j' (data_device xrt_data) session_map' of
           Inl e \<Rightarrow> Inl e
         | Inr (session, session_map'') \<Rightarrow>
             from_server_work env opts rest (i + 1) current_size' j' session_map''
               (map_push_back session (get_handle xrt_data, i) m))"

fun store_literals ::
  "Env \<Rightarrow> tensor list \<Rightarrow> nat list \<Rightarrow> string list \<Rightarrow> error + string list" where
  "store_literals env [] mapping results = Inr results"
| "store_literals env (out # outs) [] results = Inl UndefinedBehaviour"
| "store_literals env (out # outs) (li # mapping) results =
     (if length results \<le> li then Inl UndefinedBehaviour
      else
        (case scalar_tstring out of
           Inl e \<Rightarrow> Inl e
         | Inr proto \<Rightarrow>
             (case LiteralFromProto env proto of
                None \<Rightarrow> Inl CheckFailure
              | Some literal \<Rightarrow> store_literals env outs mapping (results[li := literal]))))"

fun run_read_sessions ::
  "Env \<Rightarrow> (session \<times> handle SessionWork) list \<Rightarrow> string list \<Rightarrow> Client
     \<Rightarrow> (error + string list) \<times> Client" where
  "run_read_sessions env [] results c = (Inr results, c)"
| "run_read_sessions env ((session, session_work) # rest) results c =
     (case Run env session (XRTReadLiteral (feed_inputs session_work)) c of
        (resp, c') \<Rightarrow>
          if \<not> status_ok resp then (Inl CheckFailure, c')
          else if length (outputs resp) \<noteq> length session_work then (Inl CheckFailure, c')
          else
            (case store_literals env (outputs resp) (index_mapping session_work) results of
               Inl e \<Rightarrow> (Inl e, c')
             | Inr results' \<Rightarrow> run_read_sessions env rest results' c'))"

definition TransferFromServerImpl ::
  "Env \<Rightarrow> XrtData list \<Rightarrow> Client \<Rightarrow> (error + string list) \<times> Client" where
  "TransferFromServerImpl env handles c =
     (case from_server_work env (options c) handles 0 0 0 [] [] of
        Inl e \<Rightarrow> (Inl e, c)
      | Inr m \<Rightarrow> run_read_sessions env m (replicate (length handles) []) c)"

section \<open>Running computations\<close>

text \<open>
  The constructor of the client adds one device for every entry of the global device
  map; \<^verbatim>\<open>GetDevice\<close> fails its check for any other name.
\<close>

definition GetDevice :: "Options \<Rightarrow> string \<Rightarrow> error + string" where
  "GetDevice opts device_name =
     (case global_device_map opts device_name of
        None \<Rightarrow> Inl CheckFailure
      | Some xrt_device \<Rightarrow> Inr device_name)"

text \<open>
  \<^verbatim>\<open>GetComputationResults\<close>: a result tensor of one dimension is a vector of handles,
  one for each element of the result tuple; any other result tensor is read as one
  scalar handle for the whole result.
\<close>

fun tuple_element_results ::
  "string \<Rightarrow> Shape \<Rightarrow> handle list \<Rightarrow> nat \<Rightarrow> error + XrtData list" where
  "tuple_element_results device result_shape [] i = Inr []"
| "tuple_element_results device result_shape (h # handles_vec) i =
     (case GetTupleElementShape result_shape i of
        Inl e \<Rightarrow> Inl e
      | Inr element_shape \<Rightarrow>
          (case tuple_element_results device result_shape handles_vec (i + 1) of
             Inl e \<Rightarrow> Inl e
           | Inr results \<Rightarrow>
               Inr (\<lparr>data_device = device, data_shape = element_shape, get_handle = h\<rparr>
                      # results)))"

definition GetComputationResults ::
  "Options \<Rightarrow> tensor \<Rightarrow> Shape \<Rightarrow> string \<Rightarrow> error + XrtData list" where
  "GetComputationResults opts xrt_result result_shape device_name =
     (case GetDevice opts device_name of
        Inl e \<Rightarrow> Inl e
      | Inr device \<Rightarrow>
          (case xrt_result of
             Int64Vector handles_vec \<Rightarrow> tuple_element_results device result_shape handles_vec 0
           | Int64Scalar h \<Rightarrow>
               Inr [\<lparr>data_device = device, data_shape = result_shape, get_handle = h\<rparr>]
           | StringScalar s \<Rightarrow> Inl UndefinedBehaviour))"

text \<open>
  \<^verbatim>\<open>GetArgumentsInputs\<close> checks that every argument lives on the device of the call and
  collects the handles. \<^verbatim>\<open>CreateExecuteOps\<close> (the overload for one computation) builds
  one execute node per argument list, on the session of the device; it extends the
  session map of its caller.
\<close>

fun GetArgumentsInputs :: "XrtData list \<Rightarrow> string \<Rightarrow> error + handle list" where
  "GetArgumentsInputs [] device = Inr []"
| "GetArgumentsInputs (xrt_data # arguments) device =
     (if device \<noteq> data_device xrt_data then Inl CheckFailure
      else map_sum id ((#) (get_handle xrt_data)) (GetArgumentsInputs arguments device))"

fun CreateExecuteOps ::
  "Env \<Rightarrow> Options \<Rightarrow> SessionMap \<Rightarrow> XrtComputation \<Rightarrow> XrtData list list \<Rightarrow> bool
     \<Rightarrow> string list \<Rightarrow> error + ExecuteNode list \<times> SessionMap" where
  "CreateExecuteOps env opts session_map computation [] explode_tuple devices =
     Inr ([], session_map)"
| "CreateExecuteOps env opts session_map computation (args # arguments) explode_tuple [] =
     Inl UndefinedBehaviour"
| "CreateExecuteOps env opts session_map computation (args # arguments) explode_tuple
       (device # devices) =
     (case GetArgumentsInputs args device of
        Inl e \<Rightarrow> Inl e
      | Inr inputs \<Rightarrow>
          (case SwiftDeviceToXrtDevice opts device of
             Inl e \<Rightarrow> Inl e
           | Inr xrt_device \<Rightarrow>
               (case GetSessionForXrtDevice env opts SessionCache 0 xrt_device session_map of
                  Inl e \<Rightarrow> Inl e
                | Inr (session, session_map') \<Rightarrow>
                    (case CreateExecuteOps env opts session_map' computation arguments
                            explode_tuple devices of
                       Inl e \<Rightarrow> Inl e
                     | Inr (exec_ops, session_map'') \<Rightarrow>
                         Inr (\<lparr>exec_device = xrt_device,
                               exec_computation_handle = computation_handle computation,
                               exec_explode_tuple = explode_tuple,
                               exec_inputs = inputs\<rparr> # exec_ops, session_map'')))))"

subsection \<open>\<^verbatim>\<open>RunComputations\<close>\<close>

text \<open>
  The first loop files every replica under the session that the session map has for
  the RPC target of the worker of its device (\<^verbatim>\<open>session_map.at\<close> throws for a target
  that is not in the map).
\<close>

definition replica_session :: "Env \<Rightarrow> Options \<Rightarrow> SessionMap \<Rightarrow> string \<Rightarrow> error + session" where
  "replica_session env opts session_map device =
     (case GetEffectiveDevice opts device of
        Inl e \<Rightarrow> Inl e
      | Inr effective \<Rightarrow>
          (case GetWorkerForDevice env opts effective of
             Inl e \<Rightarrow> Inl e
           | Inr worker_hostport \<Rightarrow>
               (case map_of session_map (snd worker_hostport) of
                  None \<Rightarrow> Inl OutOfRange
                | Some session \<Rightarrow> Inr session)))"

fun session_replicas ::
  "Env \<Rightarrow> Options \<Rightarrow> SessionMap \<Rightarrow> string list \<Rightarrow> nat \<Rightarrow> (session \<times> nat list) list
     \<Rightarrow> error + (session \<times> nat list) list" where
  "session_replicas env opts session_map [] i m = Inr m"
| "session_replicas env opts session_map (device # devices) i m =
     (case replica_session env opts session_map device of
        Inl e \<Rightarrow> Inl e
      | Inr session \<Rightarrow>
          session_replicas env opts session_map devices (i + 1) (map_push_back session i m))"

text \<open>
  A session runner collects the execute nodes of its replicas, runs them in one RPC,
  and stores the results of output \<open>i\<close> at the index of replica \<open>i\<close>. It gives the
  exception that ended it, if any, and the vector \<^verbatim>\<open>results\<close> as it has left it.
\<close>

fun exec_nodes_of :: "ExecuteNode list \<Rightarrow> nat list \<Rightarrow> error + ExecuteNode list" where
  "exec_nodes_of exec_ops [] = Inr []"
| "exec_nodes_of exec_ops (replica # replicas) =
     (if length exec_ops \<le> replica then Inl UndefinedBehaviour
      else map_sum id ((#) (exec_ops ! replica)) (exec_nodes_of exec_ops replicas))"

fun store_results ::
  "Options \<Rightarrow> XrtComputation list \<Rightarrow> string list \<Rightarrow> tensor list \<Rightarrow> nat list
     \<Rightarrow> XrtData list list \<Rightarrow> Client \<Rightarrow> (error option \<times> XrtData list list) \<times> Client" where
  "store_results opts computations devices [] replicas results c = ((None, results), c)"
| "store_results opts computations devices (out # outs) [] results c =
     ((Some UndefinedBehaviour, results), c)"
| "store_results opts computations devices (out # outs) (replica # replicas) results c =
     (if length results \<le> replica \<or> length computations \<le> replica \<or> length devices \<le> replica
      then ((Some UndefinedBehaviour, results), c)
      else
        (case GetEffectiveDevice opts (devices ! replica) of
           Inl e \<Rightarrow> ((Some e, results), c)
         | Inr effective \<Rightarrow>
             (case GetComputationResults opts out
                     (program_shape_result (computations ! replica)) effective of
                Inl e \<Rightarrow> ((Some e, results), c)
              | Inr replica_results \<Rightarrow>
                  store_results opts computations devices outs replicas
                    (results[replica := replica_results])
                    (AddValue ''CreateDataHandles'' (length replica_results) c))))"

definition session_runner ::
  "Env \<Rightarrow> ExecuteNode list \<Rightarrow> XrtComputation list \<Rightarrow> string list \<Rightarrow> session \<Rightarrow> nat list
     \<Rightarrow> XrtData list list \<Rightarrow> Client \<Rightarrow> (error option \<times> XrtData list list) \<times> Client" where
  "session_runner env exec_ops computations devices session replicas results c =
     (case exec_nodes_of exec_ops replicas of
        Inl e \<Rightarrow> ((Some e, results), c)
      | Inr exec_nodes \<Rightarrow>
          (case Run env session (XRTExecute exec_nodes) c of
             (resp, c') \<Rightarrow>
               if \<not> status_ok resp then ((Some ComputationError, results), c')
               else if length (outputs resp) \<noteq> length exec_nodes
               then ((Some CheckFailure, results), c')
               else store_results (options c') computations devices (outputs resp) replicas
                      results c'))"

text \<open>
  The session runners run on the I/O pool; each touches the shared state in its RPC
  and in its writes to the slots of its own replicas. They are run here one after the
  other, in the order \<open>order\<close> of positions in the map \<^verbatim>\<open>session_replicas\<close> that the
  caller of the model chooses. Under the multi-wait barrier a runner that raised an
  exception has completed and the others run all the same; \<open>failure\<close> is the exception
  raised last. It reaches the caller of \<^verbatim>\<open>Wait\<close> and unwinds \<^verbatim>\<open>RunComputations\<close>, which
  destroys \<^verbatim>\<open>results\<close>: the device handles stored there are queued for release, taken
  here in the order of the slots.
\<close>

fun run_session_runners ::
  "Env \<Rightarrow> ExecuteNode list \<Rightarrow> XrtComputation list \<Rightarrow> string list \<Rightarrow> (session \<times> nat list) list
     \<Rightarrow> nat list \<Rightarrow> XrtData list list \<Rightarrow> error option \<Rightarrow> Client
     \<Rightarrow> (error option \<times> XrtData list list) \<times> Client" where
  "run_session_runners env exec_ops computations devices m [] results failure c =
     ((failure, results), c)"
| "run_session_runners env exec_ops computations devices m (p # order) results failure c =
     (if length m \<le> p then ((Some UndefinedBehaviour, results), c)
      else
        (case session_runner env exec_ops computations devices (fst (m ! p)) (snd (m ! p))
                results c of
           ((Some e, results'), c') \<Rightarrow>
             if thrown e then
               run_session_runners env exec_ops computations devices m order results' (Some e) c'
             else ((Some e, results'), c')
         | ((None, results'), c') \<Rightarrow>
             run_session_runners env exec_ops computations devices m order results' failure c'))"

definition release_replica_results :: "XrtData list list \<Rightarrow> Client \<Rightarrow> Client" where
  "release_replica_results results c =
     fold (\<lambda>xrt_data c'. ReleaseXrtData (data_device xrt_data) (get_handle xrt_data) c')
       (concat results) c"

definition RunComputations ::
  "Env \<Rightarrow> nat list \<Rightarrow> SessionMap \<Rightarrow> ExecuteNode list \<Rightarrow> XrtComputation list \<Rightarrow> string list
     \<Rightarrow> Client \<Rightarrow> (error + XrtData list list) \<times> Client" where
  "RunComputations env order session_map exec_ops computations devices c =
     (case session_replicas env (options c) session_map devices 0 [] of
        Inl e \<Rightarrow> (Inl e, c)
      | Inr m \<Rightarrow>
          if length computations \<noteq> length devices then (Inl CheckFailure, c)
          else
            (case run_session_runners env exec_ops computations devices m order
                    (replicate (length devices) []) None
                    (Schedule (replicate (length m) Runner) c) of
               ((None, results), c') \<Rightarrow> (Inr results, c')
             | ((Some e, results), c') \<Rightarrow>
                 (Inl e, if thrown e then release_replica_results results c' else c')))"

text \<open>
  \<^verbatim>\<open>ExecuteReplicated\<close> builds the execute nodes for the devices as the caller gave them
  and runs them. \<^verbatim>\<open>ExecuteComputation\<close> resolves its device first and builds and runs
  one execute node for the resolved device.
\<close>

definition ExecuteReplicated ::
  "Env \<Rightarrow> nat list \<Rightarrow> XrtComputation \<Rightarrow> XrtData list list \<Rightarrow> string list \<Rightarrow> bool \<Rightarrow> Client
     \<Rightarrow> (error + XrtData list list) \<times> Client" where
  "ExecuteReplicated env order computation arguments devices explode_tuple c =
     (case CreateExecuteOps env (options c) [] computation arguments explode_tuple devices of
        Inl e \<Rightarrow> (Inl e, c)
      | Inr (exec_ops, session_map) \<Rightarrow>
          RunComputations env order session_map exec_ops
            (replicate (length devices) computation) devices c)"

definition BuildParallelArguments :: "XrtData list \<Rightarrow> XrtData list list" where
  "BuildParallelArguments arguments = [arguments]"

definition ExecuteComputation ::
  "Env \<Rightarrow> XrtComputation \<Rightarrow> XrtData list \<Rightarrow> string \<Rightarrow> bool \<Rightarrow> Client
     \<Rightarrow> (error + XrtData list) \<times> Client" where
  "ExecuteComputation env computation arguments device explode_tuple c =
     (case GetEffectiveDevice (options c) device of
        Inl e \<Rightarrow> (Inl e, c)
      | Inr effective_device \<Rightarrow>
          (case CreateExecuteOps env (options c) [] computation
                  (BuildParallelArguments arguments) explode_tuple [effective_device] of
             Inl e \<Rightarrow> (Inl e, c)
           | Inr (exec_ops, session_map) \<Rightarrow>
               (case GetSessionForDevice env (options c) SessionCache 0 effective_device
                       session_map of
                  Inl e \<Rightarrow> (Inl e, c)
                | Inr (session, session_map') \<Rightarrow>
                    (case exec_ops of
                       [] \<Rightarrow> (Inl UndefinedBehaviour, c)
                     | front # _ \<Rightarrow>
                         (case Run env session (XRTExecute [front]) c of
                            (resp, c') \<Rightarrow>
                              if \<not> status_ok resp then (Inl ComputationError, c')
                              else if length (outputs resp) \<noteq> 1 then (Inl CheckFailure, c')
                              else
                                (case GetComputationResults (options c') (hd (outputs resp))
                                        (program_shape_result computation) effective_device of
                                   Inl e \<Rightarrow> (Inl e, c')
                                 | Inr results \<Rightarrow>
                                     (Inr results,
                                      AddValue ''CreateDataHandles'' (length results) c')))))))"

section \<open>Compilation\<close>

text \<open>
  Modelled from the spec: the compilation cache (\<^verbatim>\<open>util::Cache\<close>, which is not among the
  sources). The specification has a bounded cache with a configurable capacity that
  returns the cached program for a key, and whose eviction drops the record of the
  oldest-used program. The cache is the list of its records, most recently used
  first. \<open>Cache_Get\<close> makes the record it finds the most recently used one. \<open>Cache_Add\<close>
  puts a new record first and, when the cache has grown beyond its capacity, drops
  the last record, which it returns; for a key that has a record it keeps that record
  and makes it the most recently used one.
\<close>

definition Cache_Get :: "'k \<Rightarrow> ('k \<times> 'v) list \<Rightarrow> 'v option \<times> ('k \<times> 'v) list" where
  "Cache_Get key cache =
     (case map_of cache key of
        None \<Rightarrow> (None, cache)
      | Some object \<Rightarrow> (Some object, (key, object) # filter (\<lambda>e. fst e \<noteq> key) cache))"

definition Cache_Add ::
  "nat \<Rightarrow> 'k \<Rightarrow> 'v \<Rightarrow> ('k \<times> 'v) list \<Rightarrow> ('k \<times> 'v) list \<times> 'v option" where
  "Cache_Add max_size key object cache =
     (case map_of cache key of
        Some existing \<Rightarrow> ((key, existing) # filter (\<lambda>e. fst e \<noteq> key) cache, None)
      | None \<Rightarrow>
          if max_size < length cache + 1
          then (butlast ((key, object) # cache), Some (snd (last ((key, object) # cache))))
          else ((key, object) # cache, None))"

text \<open>
  A \<^verbatim>\<open>CompileInstance\<close> has a computation and an optional output shape. The builder of
  instance \<open>i\<close> serialises the computation for the devices, looks the key up in the
  cache and either stores the cached program in slot \<open>i\<close> or files the instance under
  the session of the device, in one critical section. The state that the builders
  share is the session map, the work of the sessions, the keys and program shapes of
  the instances to compile, and the results.
\<close>

record CompileInstance =
  instance_computation :: string
  instance_output_shape :: "Shape option"

record BuilderState =
  builder_session_map :: SessionMap
  session_work_map :: "(session \<times> string SessionWork) list"
  cache_keys :: "CompilationCacheKey option list"
  program_shapes :: "Shape option list"
  builder_results :: "XrtComputation option list"

definition builder ::
  "Env \<Rightarrow> string \<Rightarrow> string list \<Rightarrow> CompileInstance list \<Rightarrow> nat \<Rightarrow> BuilderState \<Rightarrow> Client
     \<Rightarrow> (error + BuilderState) \<times> Client" where
  "builder env device devices instances i st c =
     (case CreateXrtComputation env (instance_computation (instances ! i)) devices
             (instance_output_shape (instances ! i)) of
        Inl e \<Rightarrow> (Inl e, c)
      | Inr (serialized, result_shape) \<Rightarrow>
          (case GetResourceDomain env (options c) device of
             Inl e \<Rightarrow> (Inl e, c)
           | Inr domain \<Rightarrow>
               (case Cache_Get (domain, serialized) (compilation_cache c) of
                  (Some computation_ptr, cache') \<Rightarrow>
                    (Inr (st\<lparr>builder_results :=
                              (builder_results st)[i := Some computation_ptr]\<rparr>),
                     c\<lparr>compilation_cache := cache'\<rparr>)
                | (None, cache') \<Rightarrow>
                    (case SwiftDeviceToXrtDevice (options c) device of
                       Inl e \<Rightarrow> (Inl e, c)
                     | Inr xrt_device \<Rightarrow>
                         (case GetSessionForXrtDevice env (options c) SessionCache 0 xrt_device
                                 (builder_session_map st) of
                            Inl e \<Rightarrow> (Inl e, c)
                          | Inr (session, session_map') \<Rightarrow>
                              (Inr (st\<lparr>builder_session_map := session_map',
                                      session_work_map :=
                                        map_push_back session (serialized, i)
                                          (session_work_map st),
                                      cache_keys :=
                                        (cache_keys st)[i := Some (domain, serialized)],
                                      program_shapes :=
                                        (program_shapes st)[i := Some result_shape]\<rparr>),
                               c))))))"

text \<open>
  The builders run under the multi-wait barrier, in the order \<open>order\<close> of instance
  indices that the caller of the model chooses. A builder that raises an exception has
  completed and the others run all the same; \<open>failure\<close> is the exception raised last.
\<close>

fun run_builders ::
  "Env \<Rightarrow> string \<Rightarrow> string list \<Rightarrow> CompileInstance list \<Rightarrow> nat list \<Rightarrow> BuilderState
     \<Rightarrow> error option \<Rightarrow> Client \<Rightarrow> (error option \<times> BuilderState) \<times> Client" where
  "run_builders env device devices instances [] st failure c = ((failure, st), c)"
| "run_builders env device devices instances (i # order) st failure c =
     (if length instances \<le> i then ((Some UndefinedBehaviour, st), c)
      else
        (case builder env device devices instances i st c of
           (Inl e, c') \<Rightarrow>
             if thrown e then run_builders env device devices instances order st (Some e) c'
             else ((Some e, st), c')
         | (Inr st', c') \<Rightarrow> run_builders env device devices instances order st' failure c'))"

text \<open>
  The runner of a session compiles the programs filed under it in one RPC and, for
  every one of them, makes the compiled program from the handle that the RPC returned
  for it, stores it in its slot and adds it to the cache. A record that the cache
  drops on the way takes its reference to a program with it; the handle of the program
  is queued for release when no slot of \<^verbatim>\<open>results\<close> and no caller holds a reference to
  it.
\<close>

fun store_computations ::
  "Env \<Rightarrow> string \<Rightarrow> string list \<Rightarrow> CompileInstance list \<Rightarrow> BuilderState \<Rightarrow> tensor list
     \<Rightarrow> nat list \<Rightarrow> XrtComputation option list \<Rightarrow> Client
     \<Rightarrow> (error option \<times> XrtComputation option list) \<times> Client" where
  "store_computations env device devices instances st outs [] results c = ((None, results), c)"
| "store_computations env device devices instances st outs (li # mapping) results c =
     (case outs of
        [] \<Rightarrow> ((Some UndefinedBehaviour, results), c)
      | out # outs' \<Rightarrow>
          if length results \<le> li \<or> length instances \<le> li \<or> length (cache_keys st) \<le> li \<or>
             length (program_shapes st) \<le> li
          then ((Some UndefinedBehaviour, results), c)
          else
            (case (scalar_int64 out, cache_keys st ! li, program_shapes st ! li) of
               (Inr h, Some key, Some result_shape) \<Rightarrow>
                 (let xrt_computation =
                        \<lparr>computation_source = instance_computation (instances ! li),
                         program_shape_result = result_shape,
                         computation_devices = devices,
                         computation_handle = h,
                         compilation_device = device\<rparr>;
                      added = Cache_Add (compilation_cache_size env) key xrt_computation
                                (compilation_cache c);
                      c1 = c\<lparr>compilation_cache := fst added\<rparr>;
                      results1 = results[li := Some xrt_computation];
                      c2 = (case snd added of
                              None \<Rightarrow> c1
                            | Some evicted \<Rightarrow>
                                if Some evicted \<in> set results1 \<or>
                                   caller_holds env (rpc_log c1) (computation_handle evicted)
                                then c1
                                else ReleaseXrtComputation (compilation_device evicted)
                                       (computation_handle evicted) c1)
                  in store_computations env device devices instances st outs' mapping results1
                       (AddValue ''CreateCompileHandles'' 1 c2))
             | _ \<Rightarrow> ((Some UndefinedBehaviour, results), c)))"

definition compile_runner ::
  "Env \<Rightarrow> string \<Rightarrow> string list \<Rightarrow> CompileInstance list \<Rightarrow> BuilderState \<Rightarrow> session
     \<Rightarrow> string SessionWork \<Rightarrow> XrtComputation option list \<Rightarrow> Client
     \<Rightarrow> (error option \<times> XrtComputation option list) \<times> Client" where
  "compile_runner env device devices instances st session session_work results c =
     (case Run env session (XRTCompile (feed_inputs session_work)) c of
        (resp, c') \<Rightarrow>
          if \<not> status_ok resp then ((Some ComputationError, results), c')
          else if length (outputs resp) \<noteq> length session_work
          then ((Some CheckFailure, results), c')
          else store_computations env device devices instances st (outputs resp)
                 (index_mapping session_work) results c')"

fun run_compile_runners ::
  "Env \<Rightarrow> string \<Rightarrow> string list \<Rightarrow> CompileInstance list \<Rightarrow> BuilderState
     \<Rightarrow> (session \<times> string SessionWork) list \<Rightarrow> XrtComputation option list \<Rightarrow> error option
     \<Rightarrow> Client \<Rightarrow> (error option \<times> XrtComputation option list) \<times> Client" where
  "run_compile_runners env device devices instances st [] results failure c =
     ((failure, results), c)"
| "run_compile_runners env device devices instances st ((session, session_work) # work)
       results failure c =
     (case compile_runner env device devices instances st session session_work results c of
        ((Some e, results'), c') \<Rightarrow>
          if thrown e
          then run_compile_runners env device devices instances st work results' (Some e) c'
          else ((Some e, results'), c')
      | ((None, results'), c') \<Rightarrow>
          run_compile_runners env device devices instances st work results' failure c')"

text \<open>
  An exception that reaches \<^verbatim>\<open>Compile\<close> destroys \<^verbatim>\<open>results\<close>. A program in a slot loses
  a reference; its handle is queued for release when no later slot, no record of the
  cache and no caller holds it. What \<^verbatim>\<open>MaybeSaveLongCompileHlo\<close> writes for a slow
  compilation is not part of the state.
\<close>

fun destroy_computations :: "Env \<Rightarrow> XrtComputation option list \<Rightarrow> Client \<Rightarrow> Client" where
  "destroy_computations env [] c = c"
| "destroy_computations env (slot # results) c =
     destroy_computations env results
       (case slot of
          None \<Rightarrow> c
        | Some xrt_computation \<Rightarrow>
            if Some xrt_computation \<in> set results \<or>
               xrt_computation \<in> set (map snd (compilation_cache c)) \<or>
               caller_holds env (rpc_log c) (computation_handle xrt_computation)
            then c
            else ReleaseXrtComputation (compilation_device xrt_computation)
                   (computation_handle xrt_computation) c)"

definition Compile ::
  "Env \<Rightarrow> nat list \<Rightarrow> string \<Rightarrow> string list \<Rightarrow> CompileInstance list \<Rightarrow> Client
     \<Rightarrow> (error + XrtComputation option list) \<times> Client" where
  "Compile env order device devices instances c =
     (let n = length instances;
          st0 = \<lparr>builder_session_map = [], session_work_map = [],
                 cache_keys = replicate n None, program_shapes = replicate n None,
                 builder_results = replicate n None\<rparr>
      in case run_builders env device devices instances order st0 None
                (Schedule (replicate n Builder) c) of
           ((Some e, st), c1) \<Rightarrow>
             (Inl e, if thrown e then destroy_computations env (builder_results st) c1 else c1)
         | ((None, st), c1) \<Rightarrow>
             (case run_compile_runners env device devices instances st (session_work_map st)
                     (builder_results st) None
                     (Schedule (replicate (length (session_work_map st)) Runner) c1) of
                ((Some e, results), c2) \<Rightarrow>
                  (Inl e, if thrown e then destroy_computations env results c2 else c2)
              | ((None, results), c2) \<Rightarrow> (Inr results, c2)))"

section \<open>Chained execution\<close>

text \<open>
  An \<^verbatim>\<open>ExecuteChainedOp\<close> carries a device handle or a computation (the pointer that is
  not null; the computation is looked at only when there is no device handle), its
  outputs and its inputs. The declaration is in the header of the client, which is not
  among the sources; the fields are those that the two functions read, the indices are
  \<^verbatim>\<open>size_t\<close> values and are taken as natural numbers.
\<close>

record ChainedInput =
  input_op_index :: nat
  input_output_index :: "nat option"

record ChainedOutput =
  output_result_index :: nat
  output_output_index :: "nat option"

record ExecuteChainedOp =
  op_device_data :: "XrtData option"
  op_computation :: "XrtComputation option"
  op_outputs :: "ChainedOutput list"
  op_inputs :: "ChainedInput list"



subsection \<open>\<^verbatim>\<open>ExecuteChainedXrt\<close>\<close>








subsection \<open>\<^verbatim>\<open>ExecuteChainedSplit\<close>\<close>




















section \<open>Auxiliary notions for the proofs\<close>

text \<open>
  The unsigned sum of the sizes with indices from \<open>b\<close> up to \<open>e\<close>, the condition on one
  partition, the boundaries a partition list stands for, and the invariant of the loop
  of \<^verbatim>\<open>PartitionTransferToServer\<close>: the boundaries start at 0 and increase, the running
  size is the sum of the open partition, and every partition is within the ceiling or
  is a single tensor.
\<close>

definition seg_sum :: "64 word list \<Rightarrow> nat \<Rightarrow> nat \<Rightarrow> int" where
  "seg_sum ts b e = sum_list (map uint (take (e - b) (drop b ts)))"

definition seg_ok :: "64 word \<Rightarrow> 64 word list \<Rightarrow> nat \<Rightarrow> nat \<Rightarrow> bool" where
  "seg_ok C ts b e \<longleftrightarrow> seg_sum ts b e \<le> uint C \<or> e = b + 1"

definition boundaries :: "nat list \<Rightarrow> nat list" where
  "boundaries ps = (if ps = [] then [0] else ps)"

definition part_inv :: "64 word \<Rightarrow> 64 word list \<Rightarrow> nat \<Rightarrow> 64 word \<Rightarrow> nat list \<Rightarrow> bool" where
  "part_inv C ts i cur ps \<longleftrightarrow>
     sorted_wrt (<) (boundaries ps) \<and> hd (boundaries ps) = 0 \<and>
     ((i = 0 \<and> ps = []) \<or> last (boundaries ps) < i) \<and>
     uint cur = seg_sum ts (last (boundaries ps)) i \<and>
     seg_ok C ts (last (boundaries ps)) i \<and>
     (\<forall>k. k + 1 < length (boundaries ps) \<longrightarrow>
        seg_ok C ts (boundaries ps ! k) (boundaries ps ! (k + 1)))"

text \<open>
  The handles that a call released from one of the two kinds of handles (a release
  of allocations for data handles, a release of compilations for compile handles),
  the handles of a kind that a list of calls released, the calls among them that
  released a given handle, whether a call succeeded, and a call without its response.
\<close>

fun release_handles :: "handle_kind \<Rightarrow> request \<Rightarrow> handle list" where
  "release_handles DataHandles (XRTReleaseAllocationHandle hs) = hs"
| "release_handles CompileHandles (XRTReleaseCompilationHandle hs) = hs"
| "release_handles kind req = []"

definition released_by :: "handle_kind \<Rightarrow> rpc list \<Rightarrow> handle list" where
  "released_by kind calls = concat (map (\<lambda>call. release_handles kind (fst (snd call))) calls)"

definition releases_of :: "handle_kind \<Rightarrow> handle \<Rightarrow> rpc list \<Rightarrow> rpc list" where
  "releases_of kind h calls =
     filter (\<lambda>call. h \<in> set (release_handles kind (fst (snd call)))) calls"

definition call_ok :: "rpc \<Rightarrow> bool" where
  "call_ok call = status_ok (snd (snd call))"

definition call_request :: "rpc \<Rightarrow> session \<times> request" where
  "call_request call = (fst call, fst (snd call))"

definition release_call :: "handle_kind \<Rightarrow> session \<times> DeviceHandle list \<Rightarrow> session \<times> request" where
  "release_call kind sh = (fst sh, release_request kind (map dh_handle (snd sh)))"

text \<open>
  A slot of the result of a transfer holds the handle of a tensor when it holds a
  device handle for the device with the shape of the tensor, and one of the given
  calls is an allocation that was fed the tensor at some node and returned that
  handle for the node.
\<close>

definition transferred :: "string \<Rightarrow> TensorSource \<Rightarrow> rpc list \<Rightarrow> XrtData option \<Rightarrow> bool" where
  "transferred device_name t calls slot \<longleftrightarrow>
     (\<exists>d s feeds outs k. slot = Some d \<and> data_device d = device_name \<and> data_shape d = shape t \<and>
        (s, XRTAllocateFromTensor feeds, Response True outs) \<in> set calls \<and>
        k < length feeds \<and> k < length outs \<and> feeds ! k = t \<and>
        outs ! k = Int64Scalar (get_handle d))"

text \<open>
  An entry of the result of a read holds the literal of a handle when one of the
  given calls read the handle at some node and returned for the node a proto that
  parses to the entry.
\<close>

definition fetched :: "Env \<Rightarrow> handle \<Rightarrow> rpc list \<Rightarrow> string \<Rightarrow> bool" where
  "fetched env h calls literal \<longleftrightarrow>
     (\<exists>s hs outs k proto. (s, XRTReadLiteral hs, Response True outs) \<in> set calls \<and>
        k < length hs \<and> k < length outs \<and> hs ! k = h \<and>
        outs ! k = StringScalar proto \<and> LiteralFromProto env proto = Some literal)"

text \<open>The closures that a function scheduled on a client.\<close>

definition new_closures :: "Client \<Rightarrow> Client \<Rightarrow> closure list" where
  "new_closures c c' = drop (length (scheduled c)) (scheduled c')"

text \<open>
  The part of the invariant of the partition loop that does not depend on the sizes:
  the boundaries start at 0, increase, and the last one is below the number of
  tensors seen so far (unless none was seen).
\<close>

definition bounds_inv :: "nat \<Rightarrow> nat list \<Rightarrow> bool" where
  "bounds_inv i ps \<longleftrightarrow>
     sorted_wrt (<) (boundaries ps) \<and> hd (boundaries ps) = 0 \<and>
     (i = 0 \<and> ps = [] \<or> last (boundaries ps) < i)"

text \<open>
  The pairs of a session and an item that a map from sessions to vectors holds. A
  call executed a node for a result list when it is a successful execution whose
  \<open>k\<close>-th node is the node and whose \<open>k\<close>-th output \<^verbatim>\<open>GetComputationResults\<close> turns into
  the result list.
\<close>

definition entries :: "(session \<times> 'a list) list \<Rightarrow> (session \<times> 'a) set" where
  "entries m = {(s, x). \<exists>xs. (s, xs) \<in> set m \<and> x \<in> set xs}"

definition executed ::
  "Options \<Rightarrow> ExecuteNode \<Rightarrow> Shape \<Rightarrow> string \<Rightarrow> rpc \<Rightarrow> XrtData list \<Rightarrow> bool" where
  "executed opts node result_shape device_name call results \<longleftrightarrow>
     (\<exists>nodes outs k. snd call = (XRTExecute nodes, Response True outs) \<and>
        k < length nodes \<and> k < length outs \<and> nodes ! k = node \<and>
        GetComputationResults opts (outs ! k) result_shape device_name = Inr results)"

text \<open>
  Replica \<open>i\<close> of a run was served by a call when the call went to the session of the
  device of the replica and executed the node of the replica for its result list.
\<close>

definition served ::
  "Env \<Rightarrow> Options \<Rightarrow> SessionMap \<Rightarrow> ExecuteNode list \<Rightarrow> XrtComputation list \<Rightarrow> string list
     \<Rightarrow> nat \<Rightarrow> rpc \<Rightarrow> XrtData list \<Rightarrow> bool" where
  "served env opts session_map exec_ops computations devices i call results \<longleftrightarrow>
     (\<exists>effective. replica_session env opts session_map (devices ! i) = Inr (fst call) \<and>
        GetEffectiveDevice opts (devices ! i) = Inr effective \<and>
        executed opts (exec_ops ! i) (program_shape_result (computations ! i)) effective
          call results)"

text \<open>
  The RPC target of the worker that owns a device, and the orders in which the session
  runners of a run can complete: every position of the map from sessions to replicas
  once.
\<close>

definition device_target :: "Env \<Rightarrow> Options \<Rightarrow> string \<Rightarrow> error + string" where
  "device_target env opts device =
     (case GetEffectiveDevice opts device of
        Inl e \<Rightarrow> Inl e
      | Inr effective \<Rightarrow> map_sum id snd (GetWorkerForDevice env opts effective))"

definition valid_runner_order ::
  "Env \<Rightarrow> Options \<Rightarrow> SessionMap \<Rightarrow> string list \<Rightarrow> nat list \<Rightarrow> bool" where
  "valid_runner_order env opts session_map devices order =
     (case session_replicas env opts session_map devices 0 [] of
        Inl e \<Rightarrow> True
      | Inr m \<Rightarrow> sort order = [0..<length m])"

text \<open>
  An execute node is the node of a computation, an argument list and a device when it
  is placed on the XRT device of the device, names the handle of the computation and
  is fed the handles of the arguments in their order.
\<close>

definition node_for ::
  "Options \<Rightarrow> XrtComputation \<Rightarrow> XrtData list \<Rightarrow> string \<Rightarrow> bool \<Rightarrow> ExecuteNode \<Rightarrow> bool" where
  "node_for opts computation args device explode_tuple node \<longleftrightarrow>
     SwiftDeviceToXrtDevice opts device = Inr (exec_device node) \<and>
     exec_computation_handle node = computation_handle computation \<and>
     exec_explode_tuple node = explode_tuple \<and>
     exec_inputs node = map get_handle args"



text \<open>
  The key under which \<^verbatim>\<open>Compile\<close> looks up an instance: the resource domain of the
  device and the serialised program for the devices.
\<close>

definition compile_key ::
  "Env \<Rightarrow> Options \<Rightarrow> string \<Rightarrow> string list \<Rightarrow> CompileInstance \<Rightarrow> error + CompilationCacheKey" where
  "compile_key env opts device devices instance =
     (case CreateXrtComputation env (instance_computation instance) devices
             (instance_output_shape instance) of
        Inl e \<Rightarrow> Inl e
      | Inr (serialized, result_shape) \<Rightarrow>
          map_sum id (\<lambda>domain. (domain, serialized)) (GetResourceDomain env opts device))"

section \<open>Concrete inputs\<close>

text \<open>A tensor of 720000000 bytes: 40 percent of the default ceiling of 1800000000.\<close>

definition t720 :: TensorSource where
  "t720 = \<lparr>shape = ArrayShape U8 [720000000], populate_fn = []\<rparr>"

text \<open>
  A client with two CPU devices on one local worker and a TPU device on a second
  worker, a session cache that numbers the sessions by target and session map, and a
  server that answers every call: an allocation and a compilation with one fresh
  handle per node, a read with the literal named by the handle, an execution with a
  vector of two handles per node, a chained execution with one handle per result
  slot of the plan, a release with nothing.
\<close>

definition options0 :: Options where
  "options0 = \<lparr>default_device = ''CPU:0'',
     global_device_map = [''CPU:0'' \<mapsto> ''/job:localservice/replica:0/task:0/device:XLA_CPU:0'',
       ''CPU:1'' \<mapsto> ''/job:localservice/replica:0/task:0/device:XLA_CPU:1'',
       ''TPU:0'' \<mapsto> ''/job:worker/replica:0/task:1/device:TPU:0''],
     workers_map = [(''localservice'', 0) \<mapsto> ''grpc://localhost:4000'',
       (''worker'', 1) \<mapsto> ''grpc://remote:4000'']\<rparr>"

definition ParseFullName0 :: "string \<Rightarrow> Worker option" where
  "ParseFullName0 name =
     (if name = ''/job:localservice/replica:0/task:0/device:XLA_CPU:0'' then Some (''localservice'', 0)
      else if name = ''/job:localservice/replica:0/task:0/device:XLA_CPU:1'' then Some (''localservice'', 0)
      else if name = ''/job:worker/replica:0/task:1/device:TPU:0'' then Some (''worker'', 1)
      else None)"

definition CacheGetSession0 :: "cache_kind \<Rightarrow> nat \<Rightarrow> string \<Rightarrow> session" where
  "CacheGetSession0 cache j target =
     (if target = ''grpc://localhost:4000'' then 1 else 2) + 2 * j
       + (case cache of SessionCache \<Rightarrow> 0 | AllocSessionCache \<Rightarrow> 100)"

fun plan_op_outputs :: "XRTChainedExecuteOp \<Rightarrow> PlanOutput list" where
  "plan_op_outputs (PlanDataOp h outs) = outs"
| "plan_op_outputs (PlanComputationOp h ins outs) = outs"

fun plan_result_index :: "PlanOutput \<Rightarrow> nat" where
  "plan_result_index (PlanOutput result_index index) = result_index"

definition plan_slots :: "XRTChainedExecuteOp list \<Rightarrow> nat" where
  "plan_slots ops =
     fold (\<lambda>out n. max n (plan_result_index out + 1)) (concat (map plan_op_outputs ops)) 0"

definition fresh_handles :: "nat \<Rightarrow> nat \<Rightarrow> tensor list" where
  "fresh_handles calls n = map (\<lambda>k. Int64Scalar (word_of_nat (100 * (calls + 1) + k))) [0..<n]"

fun server0 :: "rpc list \<Rightarrow> session \<Rightarrow> request \<Rightarrow> response" where
  "server0 calls s (XRTAllocateFromTensor ts) = Response True (fresh_handles (length calls) (length ts))"
| "server0 calls s (XRTReadLiteral hs) = Response True (map (\<lambda>h. StringScalar (replicate (unat h) CHR ''x'')) hs)"
| "server0 calls s (XRTCompile ps) = Response True (fresh_handles (length calls) (length ps))"
| "server0 calls s (XRTExecute ns) =
     Response True (map (\<lambda>k. Int64Vector [word_of_nat (100 * (length calls + 1) + 2 * k),
        word_of_nat (100 * (length calls + 1) + 2 * k + 1)]) [0..<length ns])"
| "server0 calls s (XRTExecuteChained ops) =
     Response True [Int64Vector (map (\<lambda>k. word_of_nat (100 * (length calls + 1) + k))
        [0..<plan_slots ops])]"
| "server0 calls s (XRTReleaseAllocationHandle hs) = Response True []"
| "server0 calls s (XRTReleaseCompilationHandle hs) = Response True []"

definition env0 :: Env where
  "env0 = \<lparr>max_partition_size = 1800000000,
     ByteSizeOfElements = (\<lambda>s. case s of ArrayShape ty dims \<Rightarrow> word_of_nat (prod_list dims)
        | TupleShape shapes \<Rightarrow> 0),
     ParseFullName = ParseFullName0,
     CacheGetSession = CacheGetSession0,
     session_Run = server0,
     LiteralFromProto = Some,
     compilation_cache_size = 64,
     CreateXrtComputation = (\<lambda>computation devices output_shape.
        Inr (computation, case output_shape of None \<Rightarrow> ArrayShape F32 [2] | Some s \<Rightarrow> s)),
     split_mode = False,
     NodeCacheEmpty = (\<lambda>calls s op_name device. calls = []),
     caller_holds = (\<lambda>calls h. False)\<rparr>"

text \<open>The same environment with a server whose every call fails.\<close>

definition env_failing :: Env where
  "env_failing = env0\<lparr>session_Run := (\<lambda>calls s req. Response False [])\<rparr>"

text \<open>
  The same environment with a server that fails its first call and answers every
  later one, and with node caches that are never used up.
\<close>

definition env_failing_once :: Env where
  "env_failing_once = env0\<lparr>
     session_Run := (\<lambda>calls s req. if calls = [] then Response False []
                                    else session_Run env0 calls s req),
     NodeCacheEmpty := (\<lambda>calls s op_name device. False)\<rparr>"

definition client0 :: Client where
  "client0 = \<lparr>options = options0, released_data_handles = [], released_compile_handles = [],
     compilation_cache = [], counters = (\<lambda>name. 0), activations = 0, scheduled = [],
     rpc_log = []\<rparr>"


text \<open>
  The only release tokens of the handle 7 on \<open>CPU:0\<close> and of the handle 8 on \<open>TPU:0\<close>,
  the client after the first was dropped, and the client after both were dropped.
\<close>

definition token7 :: XrtHandle where
  "token7 = \<lparr>token_device = ''CPU:0'', token_handle = 7, use_count = 1\<rparr>"

definition token8 :: XrtHandle where
  "token8 = \<lparr>token_device = ''TPU:0'', token_handle = 8, use_count = 1\<rparr>"

definition client_dropped7 :: Client where
  "client_dropped7 = snd (drop_reference token7 client0)"

definition client_dropped :: Client where
  "client_dropped = snd (drop_reference token8 client_dropped7)"

text \<open>
  Three small tensors of the shapes \<open>[2,2]\<close>, \<open>[4]\<close> and \<open>[1]\<close>; five tensors of
  4 bytes with different contents, and an environment whose ceiling is 10 bytes, so
  that each of them has 40 percent of the ceiling; and two schedules: in the first the
  converters of the only partition run in the order 2, 0, 1; in the second the
  senders run in the order 2, 0, 1 and the converters of the first partition in the
  order 1, 0.
\<close>

definition small_batch :: "TensorSource list" where
  "small_batch = [\<lparr>shape = ArrayShape F32 [2, 2], populate_fn = ''aaaa''\<rparr>,
     \<lparr>shape = ArrayShape F32 [4], populate_fn = ''bbbb''\<rparr>,
     \<lparr>shape = ArrayShape F32 [1], populate_fn = ''c''\<rparr>]"

definition big_batch :: "TensorSource list" where
  "big_batch = map (\<lambda>data. \<lparr>shape = ArrayShape U8 [4], populate_fn = data\<rparr>)
     [''a'', ''b'', ''c'', ''d'', ''e'']"

definition env_small :: Env where
  "env_small = env0\<lparr>max_partition_size := 10\<rparr>"

definition schedule_one :: Schedule where
  "schedule_one = \<lparr>partition_order = [0], converter_order = (\<lambda>i. [2, 0, 1])\<rparr>"

definition schedule_three :: Schedule where
  "schedule_three = \<lparr>partition_order = [2, 0, 1],
     converter_order = (\<lambda>i. if i = 0 then [1, 0] else if i = 1 then [0, 1] else [0])\<rparr>"

text \<open>Three device handles on the three devices.\<close>

definition some_handles :: "XrtData list" where
  "some_handles = [\<lparr>data_device = ''CPU:0'', data_shape = ArrayShape F32 [2], get_handle = 3\<rparr>,
     \<lparr>data_device = ''TPU:0'', data_shape = ArrayShape F32 [2], get_handle = 1\<rparr>,
     \<lparr>data_device = ''CPU:1'', data_shape = ArrayShape F32 [2], get_handle = 2\<rparr>]"

text \<open>
  A compiled program whose result is a pair, and one argument on each of the two CPU
  devices of the local worker.
\<close>

definition program0 :: XrtComputation where
  "program0 = \<lparr>computation_source = ''add'',
     program_shape_result = TupleShape [ArrayShape F32 [2], ArrayShape S32 [1]],
     computation_devices = [''CPU:0'', ''CPU:1''], computation_handle = 77,
     compilation_device = ''CPU:0''\<rparr>"

definition arguments0 :: "XrtData list list" where
  "arguments0 = [[\<lparr>data_device = ''CPU:0'', data_shape = ArrayShape F32 [2], get_handle = 3\<rparr>],
     [\<lparr>data_device = ''CPU:1'', data_shape = ArrayShape F32 [2], get_handle = 2\<rparr>]]"

text \<open>An argument list with one device handle on \<open>CPU:0\<close>, and one on \<open>CPU:1\<close>.\<close>

definition arguments_cpu0 :: "XrtData list" where
  "arguments_cpu0 =
     [\<lparr>data_device = ''CPU:0'', data_shape = ArrayShape F32 [2], get_handle = 3\<rparr>]"

definition arguments_cpu1 :: "XrtData list" where
  "arguments_cpu1 =
     [\<lparr>data_device = ''CPU:1'', data_shape = ArrayShape F32 [2], get_handle = 2\<rparr>]"

text \<open>
  Three devices, the first two on the worker of the local service and the third on
  the other worker, one argument list for each, and the session map and the execute
  nodes that \<^verbatim>\<open>CreateExecuteOps\<close> builds for them.
\<close>

definition devices3 :: "string list" where
  "devices3 = [''CPU:0'', ''CPU:1'', ''TPU:0'']"

definition arguments3 :: "XrtData list list" where
  "arguments3 = [arguments_cpu0, arguments_cpu1,
     [\<lparr>data_device = ''TPU:0'', data_shape = ArrayShape F32 [2], get_handle = 9\<rparr>]]"

definition session_map3 :: SessionMap where
  "session_map3 = [(''grpc://localhost:4000'', 1), (''grpc://remote:4000'', 2)]"

definition exec_ops3 :: "ExecuteNode list" where
  "exec_ops3 =
     [\<lparr>exec_device = ''/job:localservice/replica:0/task:0/device:XLA_CPU:0'',
        exec_computation_handle = 77, exec_explode_tuple = False, exec_inputs = [3]\<rparr>,
      \<lparr>exec_device = ''/job:localservice/replica:0/task:0/device:XLA_CPU:1'',
        exec_computation_handle = 77, exec_explode_tuple = False, exec_inputs = [2]\<rparr>,
      \<lparr>exec_device = ''/job:worker/replica:0/task:1/device:TPU:0'',
        exec_computation_handle = 77, exec_explode_tuple = False, exec_inputs = [9]\<rparr>]"




definition chained_valid :: "ExecuteChainedOp list" where
  "chained_valid =
     [\<lparr>op_device_data = Some (hd arguments_cpu0), op_computation = None, op_outputs = [],
        op_inputs = []\<rparr>,
      \<lparr>op_device_data = None, op_computation = Some program0,
        op_outputs = [\<lparr>output_result_index = 0, output_output_index = Some 1\<rparr>],
        op_inputs = [\<lparr>input_op_index = 0, input_output_index = None\<rparr>]\<rparr>]"

text \<open>One program to compile, without an output shape of its own.\<close>

definition instance0 :: CompileInstance where
  "instance0 = \<lparr>instance_computation = ''add'', instance_output_shape = None\<rparr>"

section \<open>Partition sizes stay within the ceiling\<close>

subsection \<open>Unsigned and signed readings of a size\<close>

lemma nonneg_uint:
  assumes "0 \<le> sint (x::64 word)" shows "uint x = sint x" and "uint x < 2 ^ 63"
proof -
  have "uint x = take_bit 64 (sint x)" by (simp add: uint_sint)
  moreover have "sint x < 2 ^ 63" using sint_lt [of x] by simp
  ultimately show "uint x = sint x" using assms by (simp add: take_bit_int_eq_self)
  then show "uint x < 2 ^ 63" using \<open>sint x < 2 ^ 63\<close> by simp
qed

lemma uint_add_small:
  assumes "uint (a::64 word) < 2^63" "uint (b :: 64 word) < 2^63"
  shows "uint (a + b) = uint a + uint b"
proof -
  have "uint a + uint b < 2 ^ LENGTH(64)" using assms by simp
  then show ?thesis by (simp only: uint_add_lem [THEN iffD1])
qed

subsection \<open>The loop invariant\<close>

lemma seg_sum_Suc:
  assumes "b \<le> i" "i < length ts"
  shows "seg_sum ts b (Suc i) = seg_sum ts b i + uint (ts ! i)"
proof -
  have "Suc i - b = Suc (i - b)" using assms by simp
  moreover have "i - b < length (drop b ts)" using assms by simp
  moreover have "drop b ts ! (i - b) = ts ! i" using assms by simp
  ultimately show ?thesis
    by (simp add: seg_sum_def take_Suc_conv_app_nth)
qed

lemma seg_sum_empty: "seg_sum ts b b = 0"
  by (simp add: seg_sum_def)

lemma seg_sum_single: "i < length ts \<Longrightarrow> seg_sum ts i (Suc i) = uint (ts ! i)"
  using seg_sum_Suc [of i i ts] by (simp add: seg_sum_empty)

lemma part_inv_cur_small:
  assumes inv: "part_inv C ts i cur ps" and C: "uint C < 2 ^ 63"
    and ts: "\<forall>t \<in> set ts. uint t < 2 ^ 63" and i: "i \<le> length ts"
  shows "uint cur < 2 ^ 63"
proof -
  let ?b = "last (boundaries ps)"
  from inv have cur: "uint cur = seg_sum ts ?b i" and ok: "seg_ok C ts ?b i"
    by (simp_all add: part_inv_def)
  from ok consider "seg_sum ts ?b i \<le> uint C" | "i = ?b + 1"
    by (auto simp: seg_ok_def)
  then show ?thesis
  proof cases
    case 1
    with cur C show ?thesis by simp
  next
    case 2
    then have "?b < length ts" using i by simp
    then have "seg_sum ts ?b i = uint (ts ! ?b)" using 2 seg_sum_single by simp
    with cur ts \<open>?b < length ts\<close> show ?thesis by simp
  qed
qed

lemma part_inv_keep:
  assumes inv: "part_inv C ts i cur ps" and C: "uint C < 2 ^ 63"
    and ts: "\<forall>t \<in> set ts. uint t < 2 ^ 63" and i: "i < length ts"
    and fits: "\<not> C < cur + ts ! i"
  shows "part_inv C ts (Suc i) (cur + ts ! i) ps"
proof -
  let ?b = "last (boundaries ps)"
  have small: "uint cur < 2 ^ 63"
    using part_inv_cur_small [OF inv C ts] i by simp
  have t: "uint (ts ! i) < 2 ^ 63" using ts i by simp
  have add: "uint (cur + ts ! i) = uint cur + uint (ts ! i)"
    by (rule uint_add_small [OF small t])
  from inv have b: "?b \<le> i" by (auto simp: part_inv_def boundaries_def)
  from inv have cur: "uint cur = seg_sum ts ?b i" by (simp add: part_inv_def)
  have sum: "seg_sum ts ?b (Suc i) = uint (cur + ts ! i)"
    using seg_sum_Suc [OF b i] cur add by simp
  from fits have "uint (cur + ts ! i) \<le> uint C" by (simp add: word_less_def)
  with sum have ok: "seg_ok C ts ?b (Suc i)" by (simp add: seg_ok_def)
  from inv b have "?b < Suc i" by simp
  with inv sum ok show ?thesis by (simp add: part_inv_def)
qed

lemma part_inv_cut:
  assumes inv: "part_inv C ts i cur ps" and i: "i < length ts"
  shows "part_inv C ts (Suc i) (0 + ts ! i)
           ((if ps = [] \<and> 0 < i then ps @ [0] else ps) @ [i])"
proof (cases "i = 0")
  case True
  with inv have "ps = []" by (auto simp: part_inv_def boundaries_def)
  with True i show ?thesis
    by (simp add: part_inv_def boundaries_def seg_sum_single seg_ok_def)
next
  case False
  let ?e = "boundaries ps"
  let ?ps' = "(if ps = [] \<and> 0 < i then ps @ [0] else ps) @ [i]"
  have e': "boundaries ?ps' = ?e @ [i]" using False by (simp add: boundaries_def)
  have ne: "?e \<noteq> []" by (simp add: boundaries_def)
  from inv False have last: "last ?e < i" by (simp add: part_inv_def)
  from inv have srt: "sorted_wrt (<) ?e" by (simp add: part_inv_def)
  have below: "x < i" if "x \<in> set ?e" for x
  proof -
    from that obtain k where k: "k < length ?e" "x = ?e ! k" by (auto simp: in_set_conv_nth)
    show ?thesis
    proof (cases "k = length ?e - 1")
      case True
      with k ne last show ?thesis by (simp add: last_conv_nth)
    next
      case False
      with k have "k < length ?e - 1" by simp
      with srt k ne have "?e ! k < ?e ! (length ?e - 1)"
        by (simp add: sorted_wrt_iff_nth_less)
      with k ne last show ?thesis by (simp add: last_conv_nth)
    qed
  qed
  have s1: "sorted_wrt (<) (?e @ [i])" using srt below by (simp add: sorted_wrt_append)
  have s2: "hd (?e @ [i]) = 0" using inv ne by (simp add: part_inv_def)
  have s5: "seg_ok C ts ((?e @ [i]) ! k) ((?e @ [i]) ! (k + 1))"
    if "k + 1 < length (?e @ [i])" for k
  proof (cases "k + 1 < length ?e")
    case True
    with inv show ?thesis by (simp add: part_inv_def nth_append)
  next
    case False
    with that have k: "k = length ?e - 1" "k + 1 = length ?e" by simp_all
    have "(?e @ [i]) ! k = last ?e" using k ne by (simp add: nth_append last_conv_nth)
    moreover have "(?e @ [i]) ! (k + 1) = i" using k by (simp add: nth_append)
    ultimately show ?thesis using inv by (simp add: part_inv_def)
  qed
  show ?thesis
    unfolding part_inv_def e'
    using s1 s2 s5 i by (simp add: seg_sum_single seg_ok_def)
qed

lemma partition_loop_inv:
  assumes C: "uint C < 2 ^ 63" and ts: "\<forall>t \<in> set ts. uint t < 2 ^ 63"
  shows "ts = pre @ rest \<Longrightarrow> part_inv C ts (length pre) cur ps \<Longrightarrow>
         \<exists>cur'. part_inv C ts (length ts) cur' (partition_loop C rest (length pre) cur ps)"
proof (induction rest arbitrary: pre cur ps)
  case Nil
  then show ?case by auto
next
  case (Cons t rest)
  have i: "length pre < length ts" and t: "ts ! length pre = t"
    using Cons.prems(1) by simp_all
  have split: "ts = (pre @ [t]) @ rest" using Cons.prems(1) by simp
  show ?case
  proof (cases "C < cur + t")
    case True
    have "part_inv C ts (Suc (length pre)) (0 + t)
            ((if ps = [] \<and> 0 < length pre then ps @ [0] else ps) @ [length pre])"
      using part_inv_cut [OF Cons.prems(2) i] t by simp
    from Cons.IH [OF split] this True show ?thesis by simp
  next
    case False
    have "part_inv C ts (Suc (length pre)) (cur + t) ps"
      using part_inv_keep [OF Cons.prems(2) C ts i] False t by simp
    from Cons.IH [OF split] this False show ?thesis by simp
  qed
qed

lemma part_inv_init: "part_inv C ts 0 0 []"
  by (simp add: part_inv_def boundaries_def seg_sum_empty seg_ok_def)

lemma partition_sizes_boundaries:
  "partition_sizes C ts = boundaries (partition_loop C ts 0 0 [])"
  by (simp add: partition_sizes_def boundaries_def)

lemma partition_sizes_inv:
  assumes C: "uint C < 2 ^ 63" and ts: "\<forall>t \<in> set ts. uint t < 2 ^ 63"
  shows "\<exists>cur'. part_inv C ts (length ts) cur' (partition_loop C ts 0 0 [])"
  using partition_loop_inv [OF C ts, of "[]" ts 0 "[]"] part_inv_init by auto

text \<open>What the invariant gives at the end of the loop.\<close>

lemma part_inv_final:
  assumes inv: "part_inv C ts (length ts) cur ps" and k: "k < length (boundaries ps)"
  shows "seg_ok C ts (partition_base (boundaries ps) k)
           (partition_base (boundaries ps) k + partition_length (boundaries ps) (length ts) k) \<and>
         partition_base (boundaries ps) k + partition_length (boundaries ps) (length ts) k \<le> length ts \<and>
         (ts \<noteq> [] \<longrightarrow> 0 < partition_length (boundaries ps) (length ts) k)"
proof -
  let ?e = "boundaries ps"
  have ne: "?e \<noteq> []" by (simp add: boundaries_def)
  from inv have srt: "sorted_wrt (<) ?e" by (simp add: part_inv_def)
  from inv have last: "last ?e \<le> length ts" by (auto simp: part_inv_def boundaries_def)
  from inv have last': "ts \<noteq> [] \<Longrightarrow> last ?e < length ts" by (auto simp: part_inv_def boundaries_def)
  show ?thesis
  proof (cases "k + 1 < length ?e")
    case True
    then have lt: "?e ! k < ?e ! (k + 1)" using srt by (simp add: sorted_wrt_iff_nth_less)
    have "?e ! (k + 1) \<le> last ?e"
    proof (cases "k + 1 = length ?e - 1")
      case True then show ?thesis using ne by (simp add: last_conv_nth)
    next
      case False
      with True have "k + 1 < length ?e - 1" by simp
      then have "?e ! (k + 1) < ?e ! (length ?e - 1)" using srt ne 
        by (simp add: sorted_wrt_iff_nth_less)
      then show ?thesis using ne by (simp add: last_conv_nth)
    qed
    with last have le: "?e ! (k + 1) \<le> length ts" by simp
    have eq: "partition_base ?e k + partition_length ?e (length ts) k = ?e ! (k + 1)"
      using True lt by (simp add: partition_base_def partition_length_def)
    from inv True have "seg_ok C ts (?e ! k) (?e ! (k + 1))" by (simp add: part_inv_def)
    then have "seg_ok C ts (partition_base ?e k) (partition_base ?e k + partition_length ?e (length ts) k)"
      using eq by (simp add: partition_base_def)
    moreover have "partition_base ?e k + partition_length ?e (length ts) k \<le> length ts"
      using eq le by simp
    moreover have "0 < partition_length ?e (length ts) k"
      using True lt by (simp add: partition_base_def partition_length_def)
    ultimately show ?thesis by simp
  next
    case False
    with k have "k = length ?e - 1" by simp
    then have kl: "?e ! k = last ?e" using ne by (simp add: last_conv_nth)
    have eq: "partition_base ?e k + partition_length ?e (length ts) k = length ts"
      using False kl last by (simp add: partition_base_def partition_length_def)
    from inv have "seg_ok C ts (last ?e) (length ts)" by (simp add: part_inv_def)
    then have "seg_ok C ts (partition_base ?e k) (partition_base ?e k + partition_length ?e (length ts) k)"
      using eq kl by (simp add: partition_base_def)
    moreover have "0 < partition_length ?e (length ts) k" if "ts \<noteq> []"
      using False kl last' that by (simp add: partition_base_def partition_length_def)
    ultimately show ?thesis using eq by simp
  qed
qed

lemma partition_sizes_bounded:
  assumes C: "0 \<le> sint C" and ts: "\<forall>t \<in> set ts. 0 \<le> sint t"
    and k: "k < length (partition_sizes C ts)"
  shows "sum_list (map sint (partition_tensors (partition_sizes C ts) ts k)) \<le> sint C
         \<or> (\<exists>t. partition_tensors (partition_sizes C ts) ts k = [t] \<and> sint C < sint t)"
proof -
  let ?ps = "partition_sizes C ts"
  let ?b = "partition_base ?ps k" and ?l = "partition_length ?ps (length ts) k"
  let ?seg = "partition_tensors ?ps ts k"
  have C': "uint C < 2 ^ 63" and CC: "uint C = sint C" using nonneg_uint [OF C] by simp_all
  have ts': "\<forall>t \<in> set ts. uint t < 2 ^ 63" using ts nonneg_uint by blast
  obtain cur' where inv: "part_inv C ts (length ts) cur' (partition_loop C ts 0 0 [])"
    using partition_sizes_inv [OF C' ts'] by blast
  have fin: "seg_ok C ts ?b (?b + ?l)" "?b + ?l \<le> length ts"
    using part_inv_final [OF inv] k by (simp_all add: partition_sizes_boundaries)
  have seg: "?seg = take ?l (drop ?b ts)" by (simp add: partition_tensors_def subspan_def)
  have "set ?seg \<subseteq> set ts" unfolding seg
    by (meson set_take_subset set_drop_subset subset_trans)
  then have "\<forall>t \<in> set ?seg. sint t = uint t" using ts nonneg_uint(1) by (auto simp: subset_iff)
  then have "map sint ?seg = map uint ?seg" by (simp only: map_eq_conv)
  then have "sum_list (map sint ?seg) = sum_list (map uint ?seg)" by (simp only:)
  also have "\<dots> = seg_sum ts ?b (?b + ?l)" by (simp add: seg seg_sum_def)
  finally have sum: "sum_list (map sint ?seg) = seg_sum ts ?b (?b + ?l)" .
  from fin(1) consider "seg_sum ts ?b (?b + ?l) \<le> uint C" | "?l = 1"
    by (auto simp: seg_ok_def)
  then show ?thesis
  proof cases
    case 1
    with sum CC show ?thesis by simp
  next
    case 2
    with fin(2) have "?b < length ts" by simp
    then have one: "?seg = [ts ! ?b]" 
      unfolding seg 2 by (simp add: take_Suc_conv_app_nth [of 0] hd_drop_conv_nth take_Suc)
    show ?thesis
    proof (cases "sint (ts ! ?b) \<le> sint C")
      case True with one show ?thesis by simp
    next
      case False with one show ?thesis by simp
    qed
  qed
qed

lemma forty_percent:
  assumes C: "0 < sint C" and s: "5 * sint s = 2 * sint C"
  shows "partition_sizes C [s, s, s, s, s] = [0, 2, 4]"
proof -
  have sC: "uint C = sint C" "uint C < 2 ^ 63" using nonneg_uint [of C] C by simp_all
  have "0 \<le> sint s" using C s by linarith
  then have ss: "uint s = sint s" by (rule nonneg_uint)
  have s62: "uint s < 2 ^ 62" using ss sC s by simp
  have two: "uint (s + s) = uint s + uint s"
    using s62 by (intro uint_add_small) simp_all
  have three: "uint (s + s + s) = uint s + uint s + uint s"
    using s62 two uint_add_small [of "s + s" s] by simp
  have a1: "\<not> C < s" using ss sC s C by (simp add: word_less_def)
  have a2: "\<not> C < s + s" using two ss sC s C by (simp add: word_less_def)
  have a3: "C < s + s + s" using three ss sC s C by (simp add: word_less_def)
  have a2': "\<not> C < 2 * s" using a2 by simp
  have a3': "C < 3 * s" using a3 by simp
  show ?thesis
    by (simp add: partition_sizes_def a1 a2' a3')
qed

lemma forty_percent_tensors:
  "map (partition_tensors [0, 2, 4] [s, s, s, s, s]) [0, 1, 2] = [[s, s], [s, s], [s]]"
  by (simp add: partition_tensors_def subspan_def partition_base_def partition_length_def)

lemma partition_tensors_map:
  "map f (partition_tensors ps tensors k) = partition_tensors ps (map f tensors) k"
  by (simp add: partition_tensors_def subspan_def take_map drop_map)

lemma sint_word_eq: "sint (a::64 word) = sint b \<Longrightarrow> a = b"
  by (rule signed_word_eqI)

text \<open>
  Claim C1. With a ceiling \<open>C\<close> that is not negative and byte sizes that are not
  negative (as signed 64-bit values), every partition that \<^verbatim>\<open>PartitionTransferToServer\<close>
  computes has a summed byte size of at most \<open>C\<close>, or consists of one tensor whose size
  alone exceeds \<open>C\<close>. Five tensors that each have 40 percent of the ceiling
  (\<open>5 * size = 2 * C\<close>) give the boundaries 0, 2 and 4, that is three partitions of two,
  two and one tensors.
\<close>

theorem C1_partition_within_ceiling:
  "(0 \<le> sint C \<and> (\<forall>t \<in> set tensors. 0 \<le> sint (byte_size (shape t))) \<longrightarrow>
      (\<forall>k < length (PartitionTransferToServer C byte_size tensors).
         summed_size byte_size
           (partition_tensors (PartitionTransferToServer C byte_size tensors) tensors k) \<le> sint C
         \<or> (\<exists>t. partition_tensors (PartitionTransferToServer C byte_size tensors) tensors k = [t]
                \<and> sint C < sint (byte_size (shape t))))) \<and>
   (0 < sint C \<and> (\<forall>t \<in> set [t1, t2, t3, t4, t5]. 5 * sint (byte_size (shape t)) = 2 * sint C) \<longrightarrow>
      PartitionTransferToServer C byte_size [t1, t2, t3, t4, t5] = [0, 2, 4] \<and>
      map (partition_tensors [0, 2, 4] [t1, t2, t3, t4, t5]) [0, 1, 2] = [[t1, t2], [t3, t4], [t5]])"
proof (intro conjI impI allI)
  fix k
  let ?sz = "\<lambda>t. byte_size (shape t)"
  let ?ps = "PartitionTransferToServer C byte_size tensors"
  assume h: "0 \<le> sint C \<and> (\<forall>t \<in> set tensors. 0 \<le> sint (byte_size (shape t)))"
    and k: "k < length ?ps"
  have ps: "?ps = partition_sizes C (map ?sz tensors)"
    by (simp add: PartitionTransferToServer_def)
  have nn: "\<forall>s \<in> set (map ?sz tensors). 0 \<le> sint s" using h by simp
  have m: "map ?sz (partition_tensors ?ps tensors k) = partition_tensors ?ps (map ?sz tensors) k"
    by (rule partition_tensors_map)
  have sum: "summed_size byte_size (partition_tensors ?ps tensors k)
      = sum_list (map sint (partition_tensors ?ps (map ?sz tensors) k))"
    unfolding m [symmetric] by (simp add: summed_size_def comp_def)
  from partition_sizes_bounded [of C "map ?sz tensors" k] h nn k
  consider "sum_list (map sint (partition_tensors ?ps (map ?sz tensors) k)) \<le> sint C"
    | s where "partition_tensors ?ps (map ?sz tensors) k = [s]" "sint C < sint s"
    unfolding ps by blast
  then show "summed_size byte_size (partition_tensors ?ps tensors k) \<le> sint C
     \<or> (\<exists>t. partition_tensors ?ps tensors k = [t] \<and> sint C < sint (byte_size (shape t)))"
  proof cases
    case 1
    with sum show ?thesis by simp
  next
    case 2
    with m have "map ?sz (partition_tensors ?ps tensors k) = [s]" by simp
    then obtain t where "partition_tensors ?ps tensors k = [t]" "?sz t = s"
      by (auto simp: map_eq_Cons_conv)
    with 2 show ?thesis by auto
  qed
next
  assume h: "0 < sint C \<and> (\<forall>t \<in> set [t1, t2, t3, t4, t5]. 5 * sint (byte_size (shape t)) = 2 * sint C)"
  let ?s = "byte_size (shape t1)"
  have eq: "byte_size (shape t) = ?s" if "t \<in> set [t1, t2, t3, t4, t5]" for t
  proof -
    have "5 * sint (byte_size (shape t)) = 5 * sint ?s" using h that by auto
    then have "sint (byte_size (shape t)) = sint ?s" by simp
    then show ?thesis by (rule sint_word_eq)
  qed
  have "map (\<lambda>t. byte_size (shape t)) [t1, t2, t3, t4, t5] = [?s, ?s, ?s, ?s, ?s]"
    using eq [of t2] eq [of t3] eq [of t4] eq [of t5] by simp
  then show "PartitionTransferToServer C byte_size [t1, t2, t3, t4, t5] = [0, 2, 4]"
    using forty_percent [of C ?s] h by (simp add: PartitionTransferToServer_def)
next
  show "map (partition_tensors [0, 2, 4] [t1, t2, t3, t4, t5]) [0, 1, 2] = [[t1, t2], [t3, t4], [t5]]"
    by (simp add: partition_tensors_def subspan_def partition_base_def partition_length_def)
qed

text \<open>The theorem at the default ceiling, with five tensors of 720000000 bytes.\<close>

theorem C1_partition_within_ceiling_witness:
  "0 \<le> sint (1800000000 :: 64 word) \<and>
   0 \<le> sint (720000000 :: 64 word) \<and>
   5 * sint (720000000 :: 64 word) = 2 * sint (1800000000 :: 64 word) \<and>
   PartitionTransferToServer 1800000000 (\<lambda>s. 720000000) [t720, t720, t720, t720, t720] = [0, 2, 4] \<and>
   map (partition_tensors [0, 2, 4] [t720, t720, t720, t720, t720]) [0, 1, 2] =
     [[t720, t720], [t720, t720], [t720]] \<and>
   summed_size (\<lambda>s. 720000000) (partition_tensors [0, 2, 4] [t720, t720, t720, t720, t720] 0)
     \<le> 1800000000"
proof -
  let ?five = "[t720, t720, t720, t720, t720]"
  let ?bs = "\<lambda>s::Shape. 720000000 :: 64 word"
  let ?C = "1800000000 :: 64 word"
  have f1: "0 \<le> sint ?C" and f2: "0 \<le> sint (720000000 :: 64 word)"
    and f3: "5 * sint (720000000 :: 64 word) = 2 * sint ?C"
    by simp_all
  have h1: "0 \<le> sint ?C \<and> (\<forall>t \<in> set ?five. 0 \<le> sint (?bs (shape t)))"
    using f1 f2 by simp
  have h2: "0 < sint ?C \<and> (\<forall>t \<in> set ?five. 5 * sint (?bs (shape t)) = 2 * sint ?C)"
    using f3 by simp
  note inst = C1_partition_within_ceiling [of "?C" "?five" "?bs" t720 t720 t720 t720 t720]
  have c2: "PartitionTransferToServer ?C ?bs ?five = [0, 2, 4] \<and>
      map (partition_tensors [0, 2, 4] ?five) [0, 1, 2] = [[t720, t720], [t720, t720], [t720]]"
    by (rule mp [OF conjunct2 [OF inst] h2])
  have c1: "\<forall>k < length (PartitionTransferToServer ?C ?bs ?five).
         summed_size ?bs (partition_tensors (PartitionTransferToServer ?C ?bs ?five) ?five k) \<le> sint ?C
         \<or> (\<exists>t. partition_tensors (PartitionTransferToServer ?C ?bs ?five) ?five k = [t]
                \<and> sint ?C < sint (?bs (shape t)))"
    by (rule mp [OF conjunct1 [OF inst] h1])
  have seg0: "partition_tensors [0, 2, 4] ?five 0 = [t720, t720]"
    using conjunct2 [OF c2] by simp
  have "summed_size ?bs (partition_tensors [0, 2, 4] ?five 0) \<le> sint ?C
         \<or> (\<exists>t. partition_tensors [0, 2, 4] ?five 0 = [t] \<and> sint ?C < sint (?bs (shape t)))"
    using c1 [rule_format, of 0] by (simp add: conjunct1 [OF c2])
  then have c3: "summed_size ?bs (partition_tensors [0, 2, 4] ?five 0) \<le> 1800000000"
    unfolding seg0 by simp
  show ?thesis
    by (rule conjI [OF f1 conjI [OF f2 conjI [OF f3
          conjI [OF conjunct1 [OF c2] conjI [OF conjunct2 [OF c2] c3]]]]])
qed

section \<open>The effective device\<close>

lemma string_find_append:
  "c \<notin> set kind \<Longrightarrow> string_find (kind @ c # rest) c = Some (length kind)"
  by (induction kind) auto

text \<open>
  \<^verbatim>\<open>GetEffectiveDevice\<close> maps the empty device string to the default device; a device
  string that starts with a colon, with a default device of the form \<open>kind:ordinal\<close>, to
  the kind of the default device followed by the given string; and any other device
  string that is not empty to itself.
\<close>

lemma GetEffectiveDevice_rule:
  "GetEffectiveDevice opts [] = Inr (default_device opts) \<and>
   (default_device opts = kind @ CHR '':'' # ord \<and> CHR '':'' \<notin> set kind \<longrightarrow>
      GetEffectiveDevice opts (CHR '':'' # ordinal) = Inr (kind @ CHR '':'' # ordinal)) \<and>
   (device \<noteq> [] \<and> hd device \<noteq> CHR '':'' \<longrightarrow> GetEffectiveDevice opts device = Inr device)"
  by (simp add: GetEffectiveDevice_def string_find_append)

text \<open>
  Claim C10 says that every call that takes a device string resolves the empty string
  to the default device and a string of the form \<open>:ordinal\<close> to the kind of the default
  device with that ordinal. The default device is \<open>CPU:0\<close>. \<^verbatim>\<open>ExecuteComputation\<close>
  resolves its device before it builds the execute node, and runs the program with an
  argument on \<open>CPU:0\<close> for the empty string and with an argument on \<open>CPU:1\<close> for \<open>:1\<close>.
  \<^verbatim>\<open>ExecuteReplicated\<close> runs the program for the device \<open>CPU:0\<close>, but for the empty
  string and for \<open>:1\<close> it hands the string as it is to \<^verbatim>\<open>GetArgumentsInputs\<close>, whose
  comparison with the device of the argument fails: the call ends in a failed check
  before any RPC, while without arguments it resolves the empty string and runs.
\<close>

theorem C10_replicated_execution_keeps_raw_device:
  "GetEffectiveDevice options0 [] = Inr ''CPU:0'' \<and>
   GetEffectiveDevice options0 '':1'' = Inr ''CPU:1'' \<and>
   fst (ExecuteComputation env0 program0 arguments_cpu0 [] False client0) =
     Inr [\<lparr>data_device = ''CPU:0'', data_shape = ArrayShape F32 [2], get_handle = 100\<rparr>,
          \<lparr>data_device = ''CPU:0'', data_shape = ArrayShape S32 [1], get_handle = 101\<rparr>] \<and>
   fst (ExecuteComputation env0 program0 arguments_cpu1 '':1'' False client0) =
     Inr [\<lparr>data_device = ''CPU:1'', data_shape = ArrayShape F32 [2], get_handle = 100\<rparr>,
          \<lparr>data_device = ''CPU:1'', data_shape = ArrayShape S32 [1], get_handle = 101\<rparr>] \<and>
   fst (ExecuteReplicated env0 [0] program0 [arguments_cpu0] [''CPU:0''] False client0) =
     Inr [[\<lparr>data_device = ''CPU:0'', data_shape = ArrayShape F32 [2], get_handle = 100\<rparr>,
           \<lparr>data_device = ''CPU:0'', data_shape = ArrayShape S32 [1], get_handle = 101\<rparr>]] \<and>
   fst (ExecuteReplicated env0 [0] program0 [arguments_cpu0] [[]] False client0) =
     Inl CheckFailure \<and>
   rpc_log (snd (ExecuteReplicated env0 [0] program0 [arguments_cpu0] [[]] False client0)) = [] \<and>
   fst (ExecuteReplicated env0 [0] program0 [arguments_cpu1] ['':1''] False client0) =
     Inl CheckFailure \<and>
   rpc_log (snd (ExecuteReplicated env0 [0] program0 [arguments_cpu1] ['':1''] False client0))
     = [] \<and>
   fst (ExecuteReplicated env0 [0] program0 [[]] [[]] False client0) =
     Inr [[\<lparr>data_device = ''CPU:0'', data_shape = ArrayShape F32 [2], get_handle = 100\<rparr>,
           \<lparr>data_device = ''CPU:0'', data_shape = ArrayShape S32 [1], get_handle = 101\<rparr>]]"
  by code_simp

section \<open>The release of handles\<close>

lemma mset_map_push_back:
  "mset (concat (map snd (map_push_back s x m))) = mset (concat (map snd m)) + {#x#}"
  by (induction s x m rule: map_push_back.induct) auto

lemma session_handles_map_mset:
  "session_handles_map env opts released smap m = Inr m' \<Longrightarrow>
   mset (concat (map snd m')) = mset (concat (map snd m)) + mset released"
proof (induction released arbitrary: smap m)
  case Nil
  then show ?case by simp
next
  case (Cons h released)
  then show ?case
    by (auto split: sum.splits prod.splits simp: mset_map_push_back)
qed

lemma Run_log: "Run env s req c = (resp, c') \<Longrightarrow>
   rpc_log c' = rpc_log c @ [(s, req, resp)] \<and> options c' = options c \<and>
   released_data_handles c' = released_data_handles c \<and>
   released_compile_handles c' = released_compile_handles c \<and>
   counters c' = counters c \<and> compilation_cache c' = compilation_cache c \<and>
   scheduled c' = scheduled c \<and> activations c' = activations c"
  by (auto simp: Run_def Let_def)

lemma new_rpcs_append: "rpc_log c' = rpc_log c @ news \<Longrightarrow> new_rpcs c c' = news"
  by (simp add: new_rpcs_def)

lemma AddValue_fields:
  "pending kind (AddValue name n c) = pending kind c"
  "rpc_log (AddValue name n c) = rpc_log c"
  "counters (AddValue name n c) name = counters c name + n"
  "options (AddValue name n c) = options c"
  "activations (AddValue name n c) = activations c"
  "scheduled (AddValue name n c) = scheduled c"
  by (cases kind; simp add: AddValue_def)+

lemma AddValue_other: "name' \<noteq> name \<Longrightarrow> counters (AddValue name n c) name' = counters c name'"
  by (simp add: AddValue_def)

lemma set_pending_fields:
  "pending kind (set_pending kind hs c) = hs"
  "rpc_log (set_pending kind hs c) = rpc_log c"
  "counters (set_pending kind hs c) = counters c"
  "options (set_pending kind hs c) = options c"
  "activations (set_pending kind hs c) = activations c"
  by (cases kind; simp)+

lemma set_pending_other: "kind' \<noteq> kind \<Longrightarrow> pending kind' (set_pending kind hs c) = pending kind' c"
  by (cases kind; cases kind'; simp)

lemma op_generator_fields:
  "rpc_log (op_generator env kind s d c) = rpc_log c"
  "options (op_generator env kind s d c) = options c"
  "pending kind' (op_generator env kind s d c) = pending kind' c"
  "activations (op_generator env kind s d c) = activations c"
  by (simp_all add: op_generator_def AddValue_fields)

lemma op_generator_counters:
  "name \<noteq> release_op_name kind @ ''_Empty'' \<Longrightarrow>
   counters (op_generator env kind s d c) name = counters c name"
  by (simp add: op_generator_def AddValue_other)

lemma list_all_butlast_Cons:
  "P x \<Longrightarrow> list_all P (butlast xs) \<Longrightarrow> list_all P (butlast (x # xs))"
  by simp

lemma release_sessions_log:
  "release_sessions env kind m c = (r, c') \<Longrightarrow>
   \<exists>news. rpc_log c' = rpc_log c @ news \<and> length news \<le> length m \<and>
      map call_request news = map (release_call kind) (take (length news) m) \<and>
      list_all call_ok (butlast news) \<and>
      (r = Inr () \<longrightarrow> length news = length m \<and> list_all call_ok news) \<and>
      (\<not> list_all call_ok news \<longrightarrow> r = Inl CheckFailure) \<and>
      pending kind' c' = pending kind' c \<and> options c' = options c \<and>
      activations c' = activations c \<and>
      (\<forall>name. name \<noteq> release_op_name kind @ ''_Empty'' \<longrightarrow> counters c' name = counters c name)"
proof (induction m arbitrary: c)
  case Nil
  then show ?case by simp
next
  case (Cons a m)
  obtain s hs where a: "a = (s, hs)" by (cases a)
  show ?case
  proof (cases hs)
    case Nil
    with Cons.prems a show ?thesis by auto
  next
    case (Cons front tl)
    note hs = this
    show ?thesis
    proof (cases "SwiftDeviceToXrtDevice (options c) (dh_device front)")
      case (Inl e)
      with Cons.prems a hs show ?thesis by auto
    next
      case (Inr xd)
      let ?req = "release_request kind (map dh_handle hs)"
      let ?c0 = "op_generator env kind s (dh_device front) c"
      obtain resp c1 where run: "Run env s ?req ?c0 = (resp, c1)"
        by (cases "Run env s ?req ?c0")
      note rl = Run_log [OF run]
      have log1: "rpc_log c1 = rpc_log c @ [(s, ?req, resp)]"
        using rl by (simp add: op_generator_fields)
      have pc: "pending kind' c1 = pending kind' c"
        using rl op_generator_fields(3) [of kind' env kind s "dh_device front" c]
        by (cases kind') simp_all
      have oc: "options c1 = options c" "activations c1 = activations c"
        using rl by (simp_all add: op_generator_fields)
      have cc: "counters c1 name = counters c name"
        if "name \<noteq> release_op_name kind @ ''_Empty''" for name
        using rl that by (simp add: op_generator_counters)
      have call: "call_request (s, ?req, resp) = release_call kind a"
        by (simp add: call_request_def release_call_def a)
      show ?thesis
      proof (cases "status_ok resp")
        case False
        with Cons.prems a hs Inr run have "r = Inl CheckFailure" "c' = c1" by auto
        then show ?thesis using log1 pc oc cc call
          by (intro exI [of _ "[(s, ?req, resp)]"]) simp
      next
        case True
        with Cons.prems a hs Inr run have rec: "release_sessions env kind m c1 = (r, c')" by auto
        from Cons.IH [OF rec] obtain news where k:
          "rpc_log c' = rpc_log c1 @ news" "length news \<le> length m"
          "map call_request news = map (release_call kind) (take (length news) m)"
          "list_all call_ok (butlast news)"
          "r = Inr () \<longrightarrow> length news = length m \<and> list_all call_ok news"
          "\<not> list_all call_ok news \<longrightarrow> r = Inl CheckFailure"
          "pending kind' c' = pending kind' c1" "options c' = options c1"
          "activations c' = activations c1"
          "\<forall>name. name \<noteq> release_op_name kind @ ''_Empty'' \<longrightarrow> counters c' name = counters c1 name"
          by blast
        have ok: "call_ok (s, ?req, resp)" using True by (simp add: call_ok_def)
        have bl: "list_all call_ok (butlast ((s, ?req, resp) # news))"
          using ok k(4) by (rule list_all_butlast_Cons)
        have "rpc_log c' = rpc_log c @ (s, ?req, resp) # news" using k(1) log1 by simp
        moreover have "length ((s, ?req, resp) # news) \<le> length (a # m)" using k(2) by simp
        moreover have "map call_request ((s, ?req, resp) # news) =
            map (release_call kind) (take (length ((s, ?req, resp) # news)) (a # m))"
          using k(3) call by simp
        moreover have "r = Inr () \<longrightarrow> length ((s, ?req, resp) # news) = length (a # m) \<and>
            list_all call_ok ((s, ?req, resp) # news)"
          using k(5) ok by simp
        moreover have "\<not> list_all call_ok ((s, ?req, resp) # news) \<longrightarrow> r = Inl CheckFailure"
          using k(6) ok by simp
        moreover have "pending kind' c' = pending kind' c" using k(7) pc by simp
        moreover have "options c' = options c" "activations c' = activations c"
          using k(8,9) oc by simp_all
        moreover have "\<forall>name. name \<noteq> release_op_name kind @ ''_Empty'' \<longrightarrow>
            counters c' name = counters c name"
          using k(10) cc by simp
        ultimately show ?thesis using bl
          by (intro exI [of _ "(s, ?req, resp) # news"] conjI)
      qed
    qed
  qed
qed

lemma release_handles_request:
  "release_handles kind' (release_request kind hs) = (if kind' = kind then hs else [])"
  by (cases kind; cases kind'; simp)

lemma released_by_calls:
  "map call_request news = map (release_call kind) ms \<Longrightarrow>
   released_by kind' news = (if kind' = kind then map dh_handle (concat (map snd ms)) else [])"
proof (induction ms arbitrary: news)
  case Nil
  then show ?case by (simp add: released_by_def)
next
  case (Cons a ms)
  then obtain call rest where news: "news = call # rest"
    "call_request call = release_call kind a" "map call_request rest = map (release_call kind) ms"
    by (cases news) auto
  from news(2) have "release_handles kind' (fst (snd call)) =
      (if kind' = kind then map dh_handle (snd a) else [])"
    by (auto simp: call_request_def release_call_def release_handles_request)
  moreover from Cons.IH [OF news(3)]
  have "released_by kind' rest = (if kind' = kind then map dh_handle (concat (map snd ms)) else [])" .
  ultimately show ?case using news(1) by (simp add: released_by_def)
qed

lemma released_by_append:
  "released_by kind (xs @ ys) = released_by kind xs @ released_by kind ys"
  by (simp add: released_by_def)

lemma mset_concat_take_drop:
  "mset (concat (map snd (take k m))) + mset (concat (map snd (drop k m))) =
   mset (concat (map snd m))"
  by (metis append_take_drop_id concat_append map_append mset_append)

lemma releases_of_count:
  "length (releases_of kind h calls) \<le> count (mset (released_by kind calls)) h"
proof (induction calls)
  case Nil
  then show ?case by (simp add: releases_of_def released_by_def)
next
  case (Cons call calls)
  let ?hs = "release_handles kind (fst (snd call))"
  show ?case
  proof (cases "h \<in> set ?hs")
    case True
    then have one: "1 \<le> count (mset ?hs) h" by (simp add: Suc_le_eq)
    have l: "length (releases_of kind h (call # calls)) = Suc (length (releases_of kind h calls))"
      using True by (simp add: releases_of_def)
    have c: "count (mset (released_by kind (call # calls))) h =
        count (mset ?hs) h + count (mset (released_by kind calls)) h"
      by (simp add: released_by_def)
    show ?thesis unfolding l c using Cons one by linarith
  next
    case False
    with Cons show ?thesis by (simp add: releases_of_def released_by_def)
  qed
qed

lemma releases_of_nonempty:
  "0 < count (mset (released_by kind calls)) h \<Longrightarrow> releases_of kind h calls \<noteq> []"
proof (induction calls)
  case Nil
  then show ?case by (simp add: released_by_def)
next
  case (Cons call calls)
  then show ?case by (auto simp: releases_of_def released_by_def split: if_splits)
qed

lemma ReleaseHandles_log:
  assumes "ReleaseHandles env kind c = (r, c')"
    and "session_handles_map env (options c) (pending kind c) [] [] = Inr m"
  shows "\<exists>news. rpc_log c' = rpc_log c @ news \<and> length news \<le> length m \<and>
      map call_request news = map (release_call kind) (take (length news) m) \<and>
      list_all call_ok (butlast news) \<and>
      (r = Inr () \<longrightarrow> length news = length m \<and> list_all call_ok news \<and>
         counters c' (destroy_counter kind) =
           counters c (destroy_counter kind) + length (pending kind c)) \<and>
      (\<not> list_all call_ok news \<longrightarrow> r = Inl CheckFailure \<and>
         (\<forall>name. name \<noteq> release_op_name kind @ ''_Empty'' \<longrightarrow> counters c' name = counters c name))"
proof (cases "pending kind c = []")
  case True
  with assms have "r = Inr ()" "c' = set_pending kind [] c" "m = []"
    by (simp_all add: ReleaseHandles_def)
  then show ?thesis using True
    by (intro exI [of _ "[]"]) (simp add: set_pending_fields)
next
  case False
  let ?c1 = "set_pending kind [] c"
  have opts: "options ?c1 = options c" by (simp add: set_pending_fields)
  obtain r2 c2 where rs: "release_sessions env kind m ?c1 = (r2, c2)"
    by (cases "release_sessions env kind m ?c1")
  from release_sessions_log [OF rs, of kind] obtain news where k:
    "rpc_log c2 = rpc_log ?c1 @ news" "length news \<le> length m"
    "map call_request news = map (release_call kind) (take (length news) m)"
    "list_all call_ok (butlast news)"
    "r2 = Inr () \<longrightarrow> length news = length m \<and> list_all call_ok news"
    "\<not> list_all call_ok news \<longrightarrow> r2 = Inl CheckFailure"
    "\<forall>name. name \<noteq> release_op_name kind @ ''_Empty'' \<longrightarrow> counters c2 name = counters ?c1 name"
    by blast
  have dc: "destroy_counter kind \<noteq> release_op_name kind @ ''_Empty''" by (cases kind) simp_all
  show ?thesis
  proof (cases r2)
    case (Inl e)
    with assms False rs opts have res: "r = Inl e" "c' = c2" by (simp_all add: ReleaseHandles_def)
    have "rpc_log c' = rpc_log c @ news" using res k(1) by (simp add: set_pending_fields)
    moreover have "\<not> list_all call_ok news \<longrightarrow> r = Inl CheckFailure \<and>
         (\<forall>name. name \<noteq> release_op_name kind @ ''_Empty'' \<longrightarrow> counters c' name = counters c name)"
      using res k(6,7) Inl by (simp add: set_pending_fields)
    moreover have "r \<noteq> Inr ()" using res by simp
    ultimately show ?thesis using k(2,3,4) by (intro exI [of _ news]) simp
  next
    case (Inr u)
    with assms False rs opts
    have res: "r = Inr ()" "c' = AddValue (destroy_counter kind) (length (pending kind c)) c2"
      by (simp_all add: ReleaseHandles_def)
    from Inr k(5) have kk: "length news = length m" "list_all call_ok news" by auto
    have "rpc_log c' = rpc_log c @ news"
      using res k(1) by (simp add: set_pending_fields AddValue_fields)
    moreover have "counters c' (destroy_counter kind) =
        counters c (destroy_counter kind) + length (pending kind c)"
      using res k(7) dc by (simp add: set_pending_fields AddValue_fields)
    ultimately show ?thesis using k(2,3,4) kk by (intro exI [of _ news]) simp
  qed
qed

lemma ReleaseHandles_state:
  assumes "ReleaseHandles env kind c = (r, c')"
  shows "pending kind c' = []"
    and "kind' \<noteq> kind \<Longrightarrow> pending kind' c' = pending kind' c"
    and "options c' = options c" and "activations c' = activations c"
proof -
  let ?c1 = "set_pending kind [] c"
  have c1: "pending kind ?c1 = []" "options ?c1 = options c" "activations ?c1 = activations c"
    by (simp_all add: set_pending_fields)
  have "pending kind c' = [] \<and> (kind' \<noteq> kind \<longrightarrow> pending kind' c' = pending kind' c) \<and>
        options c' = options c \<and> activations c' = activations c"
  proof (cases "pending kind c = []")
    case True
    with assms have "c' = ?c1" by (simp add: ReleaseHandles_def)
    then show ?thesis using c1 by (simp add: set_pending_other)
  next
    case False
    show ?thesis
    proof (cases "session_handles_map env (options ?c1) (pending kind c) [] []")
      case (Inl e)
      with assms False have "c' = ?c1" by (simp add: ReleaseHandles_def)
      then show ?thesis using c1 by (simp add: set_pending_other)
    next
      case (Inr m)
      obtain r2 c2 where rs: "release_sessions env kind m ?c1 = (r2, c2)"
        by (cases "release_sessions env kind m ?c1")
      from release_sessions_log [OF rs, of kind] release_sessions_log [OF rs, of kind']
      have s: "pending kind c2 = pending kind ?c1" "pending kind' c2 = pending kind' ?c1"
        "options c2 = options ?c1" "activations c2 = activations ?c1"
        by blast+
      from assms False Inr rs
      have "c' = c2 \<or> c' = AddValue (destroy_counter kind) (length (pending kind c)) c2"
        by (auto simp: ReleaseHandles_def split: sum.splits)
      then show ?thesis using s c1 by (auto simp: AddValue_fields set_pending_other)
    qed
  qed
  then show "pending kind c' = []" and "kind' \<noteq> kind \<Longrightarrow> pending kind' c' = pending kind' c"
    and "options c' = options c" and "activations c' = activations c"
    by simp_all
qed

lemma ReleaseHandles_released:
  assumes "ReleaseHandles env kind c = (r, c')"
  shows "\<exists>news. rpc_log c' = rpc_log c @ news \<and>
      mset (released_by kind news) \<subseteq># mset (map dh_handle (pending kind c)) \<and>
      (r = Inr () \<longrightarrow> mset (released_by kind news) = mset (map dh_handle (pending kind c))) \<and>
      (kind' \<noteq> kind \<longrightarrow> released_by kind' news = [])"
proof (cases "session_handles_map env (options c) (pending kind c) [] []")
  case (Inl e)
  then have ne: "pending kind c \<noteq> []" by auto
  with assms Inl have "r = Inl e" "c' = set_pending kind [] c"
    by (simp_all add: ReleaseHandles_def set_pending_fields)
  then show ?thesis
    by (intro exI [of _ "[]"]) (simp add: set_pending_fields released_by_def)
next
  case (Inr m)
  have mm: "mset (concat (map snd m)) = mset (pending kind c)"
    using session_handles_map_mset [OF Inr] by simp
  from ReleaseHandles_log [OF assms Inr] obtain news where n:
    "rpc_log c' = rpc_log c @ news"
    "map call_request news = map (release_call kind) (take (length news) m)"
    "r = Inr () \<longrightarrow> length news = length m"
    by blast
  note rel = released_by_calls [OF n(2)]
  have "mset (concat (map snd (take (length news) m))) \<subseteq># mset (concat (map snd m))"
    using mset_concat_take_drop [of "length news" m] by (metis mset_subset_eq_add_left)
  then have sub: "mset (released_by kind news) \<subseteq># mset (map dh_handle (pending kind c))"
    using rel [of kind] mm by (metis image_mset_subseteq_mono mset_map)
  have eq: "mset (released_by kind news) = mset (map dh_handle (pending kind c))" if "r = Inr ()"
    using rel [of kind] n(3) that mm by (metis mset_map order_refl take_all)
  have "released_by kind' news = []" if "kind' \<noteq> kind" using rel [of kind'] that by simp
  with n(1) sub eq show ?thesis by (intro exI [of _ news]) simp
qed

lemma HandleReleaser_released:
  assumes "HandleReleaser env c = (r, c')"
  shows "\<exists>news. rpc_log c' = rpc_log c @ news \<and> pending DataHandles c' = [] \<and>
      mset (released_by DataHandles news) \<subseteq># mset (map dh_handle (pending DataHandles c)) \<and>
      (r = Inr () \<longrightarrow>
         mset (released_by DataHandles news) = mset (map dh_handle (pending DataHandles c)))"
proof -
  obtain r1 c1 where d: "ReleaseHandles env DataHandles c = (r1, c1)"
    by (cases "ReleaseHandles env DataHandles c")
  from ReleaseHandles_released [OF d] obtain news1 where n1:
    "rpc_log c1 = rpc_log c @ news1"
    "mset (released_by DataHandles news1) \<subseteq># mset (map dh_handle (pending DataHandles c))"
    "r1 = Inr () \<longrightarrow>
       mset (released_by DataHandles news1) = mset (map dh_handle (pending DataHandles c))"
    by blast
  note s1 = ReleaseHandles_state(1) [OF d]
  show ?thesis
  proof (cases r1)
    case (Inl e)
    with assms d have "r = Inl e" "c' = c1" by (simp_all add: HandleReleaser_def)
    with n1 s1 show ?thesis by (intro exI [of _ news1]) simp
  next
    case (Inr u)
    with assms d have cp: "ReleaseHandles env CompileHandles c1 = (r, c')"
      by (simp add: HandleReleaser_def)
    from ReleaseHandles_released [OF cp, of DataHandles] obtain news2 where n2:
      "rpc_log c' = rpc_log c1 @ news2" "released_by DataHandles news2 = []"
      by auto
    have p2: "pending DataHandles c' = []"
      using ReleaseHandles_state(2) [OF cp, of DataHandles] s1 by simp
    have "released_by DataHandles (news1 @ news2) = released_by DataHandles news1"
      using n2(2) by (simp add: released_by_append)
    with n1 n2(1) p2 Inr show ?thesis by (intro exI [of _ "news1 @ news2"]) simp
  qed
qed

lemma drop_last_reference:
  assumes "use_count token = 1" and "drop_reference token c = (token', c1)"
  shows "c1 = ReleaseXrtData (token_device token) (token_handle token) c"
    and "pending DataHandles c1 =
      pending DataHandles c @ [\<lparr>dh_device = token_device token, dh_handle = token_handle token\<rparr>]"
    and "rpc_log c1 = rpc_log c" and "activations c1 = activations c + 1"
proof -
  show c1: "c1 = ReleaseXrtData (token_device token) (token_handle token) c"
    using assms by (simp add: drop_reference_def)
  show "pending DataHandles c1 =
      pending DataHandles c @ [\<lparr>dh_device = token_device token, dh_handle = token_handle token\<rparr>]"
    unfolding c1 by (simp add: ReleaseXrtData_def ReleaseHandle_def AddValue_def Let_def)
  show "rpc_log c1 = rpc_log c"
    unfolding c1 by (simp add: ReleaseXrtData_def ReleaseHandle_def AddValue_def Let_def)
  show "activations c1 = activations c + 1"
    unfolding c1 by (simp add: ReleaseXrtData_def ReleaseHandle_def AddValue_def Let_def)
qed

text \<open>
  Claim C3 says that a handle whose last reference was dropped appears in exactly one
  release RPC. The only references to the handle 7 on \<open>CPU:0\<close> and to the handle 8 on
  \<open>TPU:0\<close> are dropped, and the server fails the first call it gets. The pass of the
  releaser takes both handles off the pending list, sends the handle 7 and ends in the
  failed check; the handle 8 is in no call of this pass nor of the next pass, which
  returns normally and makes no call at all.
\<close>

theorem C3_release_counterexample:
  "map dh_handle (pending DataHandles client_dropped) = [7, 8] \<and>
   fst (HandleReleaser env_failing_once client_dropped) = Inl CheckFailure \<and>
   pending DataHandles (snd (HandleReleaser env_failing_once client_dropped)) = [] \<and>
   fst (HandleReleaser env_failing_once (snd (HandleReleaser env_failing_once client_dropped)))
     = Inr () \<and>
   releases_of DataHandles 8
     (rpc_log (snd (HandleReleaser env_failing_once
        (snd (HandleReleaser env_failing_once client_dropped))))) = []"
  by code_simp

text \<open>
  Claim C3 as amended. Dropping a reference that is not the last one leaves the client
  as it is. Dropping the last reference appends the handle once to the pending list of
  data handles, makes no RPC and activates the releaser once. The pass of the releaser
  that follows leaves the pending list empty and sends no handle more often than it
  was pending; when the pass returns normally it has sent every pending handle as
  often as it was pending. So a handle that was not pending before is in at most one
  release RPC of the pass, and in exactly one when the pass returns normally. Any
  later pass that starts from the state the pass has left sends no data handle.
\<close>

theorem C3_release_at_most_once:
  "(1 < use_count token \<longrightarrow> snd (drop_reference token c) = c) \<and>
   (use_count token = 1 \<and> drop_reference token c = (token', c') \<and>
    HandleReleaser env c' = (r, c'') \<longrightarrow>
      pending DataHandles c' =
        pending DataHandles c @
          [\<lparr>dh_device = token_device token, dh_handle = token_handle token\<rparr>] \<and>
      rpc_log c' = rpc_log c \<and>
      activations c' = activations c + 1 \<and>
      pending DataHandles c'' = [] \<and>
      mset (released_by DataHandles (new_rpcs c' c'')) \<subseteq>#
        mset (map dh_handle (pending DataHandles c)) + {#token_handle token#} \<and>
      (r = Inr () \<longrightarrow>
         mset (released_by DataHandles (new_rpcs c' c'')) =
           mset (map dh_handle (pending DataHandles c)) + {#token_handle token#}) \<and>
      (token_handle token \<notin> dh_handle ` set (pending DataHandles c) \<longrightarrow>
         length (releases_of DataHandles (token_handle token) (new_rpcs c' c'')) \<le> 1 \<and>
         (r = Inr () \<longrightarrow>
            length (releases_of DataHandles (token_handle token) (new_rpcs c' c'')) = 1)) \<and>
      released_by DataHandles (new_rpcs c'' (snd (HandleReleaser env' c''))) = [])"
proof (intro conjI impI)
  assume "1 < use_count token"
  then show "snd (drop_reference token c) = c" by (simp add: drop_reference_def)
next
  let ?h = "token_handle token"
  let ?old = "mset (map dh_handle (pending DataHandles c))"
  assume a: "use_count token = 1 \<and> drop_reference token c = (token', c') \<and>
    HandleReleaser env c' = (r, c'')"
  then have u: "use_count token = 1" and d: "drop_reference token c = (token', c')"
    and hr: "HandleReleaser env c' = (r, c'')" by simp_all
  note dl = drop_last_reference [OF u d]
  have pm: "mset (map dh_handle (pending DataHandles c')) = ?old + {#?h#}"
    unfolding dl(2) by simp
  from HandleReleaser_released [OF hr] obtain news where n:
    "rpc_log c'' = rpc_log c' @ news" "pending DataHandles c'' = []"
    "mset (released_by DataHandles news) \<subseteq># mset (map dh_handle (pending DataHandles c'))"
    "r = Inr () \<longrightarrow>
       mset (released_by DataHandles news) = mset (map dh_handle (pending DataHandles c'))"
    by blast
  have nr: "new_rpcs c' c'' = news" by (rule new_rpcs_append [OF n(1)])
  show "pending DataHandles c' =
        pending DataHandles c @ [\<lparr>dh_device = token_device token, dh_handle = ?h\<rparr>]"
    by (rule dl(2))
  show "rpc_log c' = rpc_log c" by (rule dl(3))
  show "activations c' = activations c + 1" by (rule dl(4))
  show "pending DataHandles c'' = []" by (rule n(2))
  show sub: "mset (released_by DataHandles (new_rpcs c' c'')) \<subseteq># ?old + {#?h#}"
    unfolding nr using n(3) pm by simp
  show eq: "mset (released_by DataHandles (new_rpcs c' c'')) = ?old + {#?h#}" if "r = Inr ()"
    unfolding nr using n(4) pm that by simp
  show "length (releases_of DataHandles ?h (new_rpcs c' c'')) \<le> 1"
    if fresh: "?h \<notin> dh_handle ` set (pending DataHandles c)"
  proof -
    from fresh have "count ?old ?h = 0" by (simp add: count_eq_zero_iff)
    then have "count (?old + {#?h#}) ?h = 1" by simp
    with sub have "count (mset (released_by DataHandles (new_rpcs c' c''))) ?h \<le> 1"
      by (metis mset_subset_eq_count)
    with releases_of_count [of DataHandles ?h "new_rpcs c' c''"] show ?thesis by simp
  qed
  show "length (releases_of DataHandles ?h (new_rpcs c' c'')) = 1"
    if fresh: "?h \<notin> dh_handle ` set (pending DataHandles c)" and ok: "r = Inr ()"
  proof -
    from fresh have "count ?old ?h = 0" by (simp add: count_eq_zero_iff)
    then have "count (?old + {#?h#}) ?h = 1" by simp
    with eq [OF ok] have cnt: "count (mset (released_by DataHandles (new_rpcs c' c''))) ?h = 1"
      by simp
    from cnt have "releases_of DataHandles ?h (new_rpcs c' c'') \<noteq> []"
      by (intro releases_of_nonempty) simp
    then have "1 \<le> length (releases_of DataHandles ?h (new_rpcs c' c''))"
      by (simp add: Suc_le_eq)
    with releases_of_count [of DataHandles ?h "new_rpcs c' c''"] cnt show ?thesis by simp
  qed
  show "released_by DataHandles (new_rpcs c'' (snd (HandleReleaser env' c''))) = []"
  proof -
    obtain r3 c3 where hr3: "HandleReleaser env' c'' = (r3, c3)"
      by (cases "HandleReleaser env' c''")
    from HandleReleaser_released [OF hr3] obtain news3 where n3:
      "rpc_log c3 = rpc_log c'' @ news3"
      "mset (released_by DataHandles news3) \<subseteq># mset (map dh_handle (pending DataHandles c''))"
      by blast
    have "new_rpcs c'' c3 = news3" by (rule new_rpcs_append [OF n3(1)])
    moreover from n3(2) n(2) have "released_by DataHandles news3 = []" by simp
    ultimately show ?thesis using hr3 by simp
  qed
qed

text \<open>
  The handle 7 is pending when the only reference to the handle 8 is dropped, and the
  server answers every call: the pass sends the handle 8 in one release RPC.
\<close>

theorem C3_release_at_most_once_witness:
  "use_count token8 = 1 \<and>
   map dh_handle (pending DataHandles client_dropped7) = [7] \<and>
   map dh_handle (pending DataHandles client_dropped) = [7, 8] \<and>
   activations client_dropped = activations client_dropped7 + 1 \<and>
   fst (HandleReleaser env0 client_dropped) = Inr () \<and>
   pending DataHandles (snd (HandleReleaser env0 client_dropped)) = [] \<and>
   length (releases_of DataHandles 8
     (new_rpcs client_dropped (snd (HandleReleaser env0 client_dropped)))) = 1 \<and>
   released_by DataHandles
     (new_rpcs (snd (HandleReleaser env0 client_dropped))
        (snd (HandleReleaser env0 (snd (HandleReleaser env0 client_dropped))))) = []"
proof -
  let ?c2 = "snd (HandleReleaser env0 client_dropped)"
  have u: "use_count token8 = 1" by (simp add: token8_def)
  have h: "token_handle token8 = 8" by (simp add: token8_def)
  have d: "drop_reference token8 client_dropped7 = (fst (drop_reference token8 client_dropped7), client_dropped)"
    by (simp add: client_dropped_def)
  have r: "fst (HandleReleaser env0 client_dropped) = Inr ()" by code_simp
  then have hr: "HandleReleaser env0 client_dropped = (Inr (), ?c2)" by (simp add: prod_eq_iff)
  have p7: "map dh_handle (pending DataHandles client_dropped7) = [7]" by code_simp
  have fresh: "token_handle token8 \<notin> dh_handle ` set (pending DataHandles client_dropped7)"
  proof -
    have "dh_handle ` set (pending DataHandles client_dropped7) =
        set (map dh_handle (pending DataHandles client_dropped7))" by simp
    also have "\<dots> = {7}" unfolding p7 by simp
    finally show ?thesis unfolding h by simp
  qed
  note inst = C3_release_at_most_once [where token = token8 and c = client_dropped7
      and token' = "fst (drop_reference token8 client_dropped7)" and c' = client_dropped
      and env = env0 and r = "Inr ()" and c'' = "?c2" and env' = env0]
  from inst u d hr have all:
    "pending DataHandles client_dropped =
        pending DataHandles client_dropped7 @
          [\<lparr>dh_device = token_device token8, dh_handle = token_handle token8\<rparr>]"
    "activations client_dropped = activations client_dropped7 + 1"
    "pending DataHandles ?c2 = []"
    "released_by DataHandles (new_rpcs ?c2 (snd (HandleReleaser env0 ?c2))) = []"
    by blast+
  from inst u d hr fresh
  have one: "length (releases_of DataHandles (token_handle token8) (new_rpcs client_dropped ?c2)) = 1"
    by blast
  have p: "map dh_handle (pending DataHandles client_dropped) = [7, 8]"
    unfolding all(1) using p7 h by simp
  show ?thesis using u p7 p all(2) r all(3) one [unfolded h] all(4) by (intro conjI)
qed




section \<open>Transfers keep the order of their input\<close>

subsection \<open>The converters of one call use one session\<close>

lemma converter_first:
  assumes "SwiftDeviceToXrtDevice opts device = Inr xd"
    and "GetWorkerForXrtDevice env opts xd = Inr (w, t)"
    and "converter env opts j device tensors i ([], []) = Inr maps'"
  shows "maps' = ([(t, CacheGetSession env AllocSessionCache j t)],
                  [(CacheGetSession env AllocSessionCache j t, [(tensors ! i, i)])])"
  using assms
  by (auto simp: converter_def GetSessionForXrtDevice_def GetSessionForTarget_def Let_def
      split: sum.splits)

lemma converter_next:
  assumes "SwiftDeviceToXrtDevice opts device = Inr xd"
    and "GetWorkerForXrtDevice env opts xd = Inr (w, t)"
    and "converter env opts j device tensors i ([(t, s)], [(s, work)]) = Inr maps'"
  shows "maps' = ([(t, s)], [(s, work @ [(tensors ! i, i)])])"
  using assms
  by (auto simp: converter_def GetSessionForXrtDevice_def GetSessionForTarget_def Let_def
      split: sum.splits)

lemma converter_needs_device:
  "converter env opts j device tensors i maps = Inr maps' \<Longrightarrow>
   \<exists>xd w t. SwiftDeviceToXrtDevice opts device = Inr xd \<and> GetWorkerForXrtDevice env opts xd = Inr (w, t)"
  by (auto simp: converter_def GetSessionForXrtDevice_def split: sum.splits)

lemma run_converters_next:
  assumes "SwiftDeviceToXrtDevice opts device = Inr xd"
    and "GetWorkerForXrtDevice env opts xd = Inr (w, t)"
  shows "run_converters env opts j device tensors order ([(t, s)], [(s, work)]) = Inr maps' \<Longrightarrow>
         maps' = ([(t, s)], [(s, work @ map (\<lambda>i. (tensors ! i, i)) order)])"
proof (induction order arbitrary: work)
  case Nil
  then show ?case by simp
next
  case (Cons i order)
  from Cons.prems obtain m1 where
    c: "converter env opts j device tensors i ([(t, s)], [(s, work)]) = Inr m1"
    and r: "run_converters env opts j device tensors order m1 = Inr maps'"
    by (auto split: if_splits sum.splits)
  have "m1 = ([(t, s)], [(s, work @ [(tensors ! i, i)])])"
    by (rule converter_next [OF assms c])
  with r Cons.IH [of "work @ [(tensors ! i, i)]"] show ?case by simp
qed

lemma run_converters_exact:
  assumes "run_converters env opts j device tensors order ([], []) = Inr maps'"
  shows "snd maps' = [] \<and> order = [] \<or>
         (\<exists>s. snd maps' = [(s, map (\<lambda>i. (tensors ! i, i)) order)] \<and> order \<noteq> [])"
proof (cases order)
  case Nil
  with assms show ?thesis by auto
next
  case (Cons i rest)
  with assms obtain m1 where
    c: "converter env opts j device tensors i ([], []) = Inr m1"
    and r: "run_converters env opts j device tensors rest m1 = Inr maps'"
    by (auto split: if_splits sum.splits)
  from converter_needs_device [OF c] obtain xd w t where
    d: "SwiftDeviceToXrtDevice opts device = Inr xd" "GetWorkerForXrtDevice env opts xd = Inr (w, t)"
    by blast
  let ?s = "CacheGetSession env AllocSessionCache j t"
  have "m1 = ([(t, ?s)], [(?s, [(tensors ! i, i)])])" by (rule converter_first [OF d c])
  with r run_converters_next [OF d, of j tensors rest ?s "[(tensors ! i, i)]" maps']
  have "maps' = ([(t, ?s)], [(?s, [(tensors ! i, i)] @ map (\<lambda>i. (tensors ! i, i)) rest)])"
    by simp
  with Cons show ?thesis by simp
qed

subsection \<open>What a runner stores\<close>

lemma store_handles_slots:
  "store_handles dev tensors outs ims results = Inr results' \<Longrightarrow>
   length results' = length results \<and> length outs \<le> length ims \<and>
   (\<forall>li < length results.
      (results' ! li = results ! li) \<or>
      (\<exists>k < length outs. ims ! k = li \<and> li < length tensors \<and>
         (\<exists>h. outs ! k = Int64Scalar h \<and>
            results' ! li = Some \<lparr>data_device = dev, data_shape = shape (tensors ! li),
              get_handle = h\<rparr>))) \<and>
   (\<forall>k < length outs. ims ! k < length results \<and> results' ! (ims ! k) \<noteq> None)"
proof (induction dev tensors outs ims results arbitrary: results' rule: store_handles.induct)
  case (1 dev tensors mapping results)
  then show ?case by simp
next
  case (2 dev tensors out outs results)
  then show ?case by simp
next
  case (3 dev tensors out outs li mapping results)
  from "3.prems" obtain h where h: "scalar_int64 out = Inr h"
    and li: "li < length results" "li < length tensors"
    by (auto split: if_splits sum.splits)
  let ?d = "\<lparr>data_device = dev, data_shape = shape (tensors ! li), get_handle = h\<rparr>"
  let ?r1 = "results[li := Some ?d]"
  from "3.prems" h li have rec: "store_handles dev tensors outs mapping ?r1 = Inr results'"
    by simp
  have out: "out = Int64Scalar h" using h by (cases out) simp_all
  from "3.IH" [OF _ h rec] li
  have len: "length results' = length results" "length outs \<le> length mapping"
    and slots: "\<forall>l < length results.
      (results' ! l = ?r1 ! l) \<or>
      (\<exists>k < length outs. mapping ! k = l \<and> l < length tensors \<and>
         (\<exists>h. outs ! k = Int64Scalar h \<and>
            results' ! l = Some \<lparr>data_device = dev, data_shape = shape (tensors ! l),
              get_handle = h\<rparr>))"
    and written: "\<forall>k < length outs. mapping ! k < length results \<and> results' ! (mapping ! k) \<noteq> None"
    by auto
  have s: "(results' ! l = results ! l) \<or>
      (\<exists>k < length (out # outs). (li # mapping) ! k = l \<and> l < length tensors \<and>
         (\<exists>h. (out # outs) ! k = Int64Scalar h \<and>
            results' ! l = Some \<lparr>data_device = dev, data_shape = shape (tensors ! l),
              get_handle = h\<rparr>))" if l: "l < length results" for l
  proof -
    from slots l consider (same) "results' ! l = ?r1 ! l"
      | (later) k h' where "k < length outs" "mapping ! k = l" "l < length tensors"
          "outs ! k = Int64Scalar h'"
          "results' ! l = Some \<lparr>data_device = dev, data_shape = shape (tensors ! l),
              get_handle = h'\<rparr>"
      by blast
    then show ?thesis
    proof cases
      case same
      show ?thesis
      proof (cases "l = li")
        case True
        with same li out have "results' ! l = Some ?d" by simp
        with True li out show ?thesis by (intro disjI2 exI [of _ 0]) simp
      next
        case False
        with same show ?thesis by simp
      qed
    next
      case later
      then show ?thesis by (intro disjI2 exI [of _ "Suc k"]) simp
    qed
  qed
  have w: "(li # mapping) ! k < length results \<and> results' ! ((li # mapping) ! k) \<noteq> None"
    if k: "k < length (out # outs)" for k
  proof (cases k)
    case 0
    from s [OF li(1)] li have "results' ! li \<noteq> None"
      by (metis length_list_update nth_list_update_eq option.distinct(1) slots)
    with 0 li show ?thesis by simp
  next
    case (Suc k')
    with k written show ?thesis by simp
  qed
  show ?case using len s w by simp
qed

lemma Schedule_fields:
  "rpc_log (Schedule cls c) = rpc_log c"
  "scheduled (Schedule cls c) = scheduled c @ cls"
  "counters (Schedule cls c) = counters c"
  "options (Schedule cls c) = options c"
  by (simp_all add: Schedule_def)

lemma ReleaseXrtData_fields:
  "rpc_log (ReleaseXrtData d h c) = rpc_log c"
  "scheduled (ReleaseXrtData d h c) = scheduled c"
  "options (ReleaseXrtData d h c) = options c"
  "counters (ReleaseXrtData d h c) ''XrtPartitionedTransferToServer'' =
     counters c ''XrtPartitionedTransferToServer''"
  by (simp_all add: ReleaseXrtData_def ReleaseHandle_def AddValue_def Let_def)

lemma release_results_fields:
  "rpc_log (release_results results c) = rpc_log c \<and>
   scheduled (release_results results c) = scheduled c \<and>
   options (release_results results c) = options c \<and>
   counters (release_results results c) ''XrtPartitionedTransferToServer'' =
     counters c ''XrtPartitionedTransferToServer''"
proof (induction results arbitrary: c)
  case Nil
  then show ?case by (simp add: release_results_def)
next
  case (Cons slot results)
  show ?case
  proof (cases slot)
    case None
    with Cons [of c] show ?thesis by (simp add: release_results_def)
  next
    case (Some d)
    with Cons [of "ReleaseXrtData (data_device d) (get_handle d) c"] show ?thesis
      by (simp add: release_results_def ReleaseXrtData_fields)
  qed
qed

lemma release_results_None: "release_results (replicate n None) c = c"
  by (induction n) (simp_all add: release_results_def)

lemma transfer_runners_failed_Inl:
  "\<exists>e'. fst (transfer_runners_failed env dev tensors work results e c) = Inl e'"
proof (induction work arbitrary: results e c)
  case Nil
  then show ?case by simp
next
  case (Cons a work)
  obtain s w where a: "a = (s, w)" by (cases a)
  obtain r1 c1 where t: "transfer_runner env dev tensors s w results c = (r1, c1)"
    by (cases "transfer_runner env dev tensors s w results c")
  show ?case
  proof (cases r1)
    case (Inl e1)
    with a t Cons [of results e1 c1] show ?thesis by simp
  next
    case (Inr results1)
    with a t Cons [of results1 e c1] show ?thesis by simp
  qed
qed

lemma senders_failed_Inl:
  "\<exists>e'. fst (senders_failed env sched dev tensors partitions rest results e c) = Inl e'"
proof (induction rest arbitrary: results e c)
  case Nil
  then show ?case by simp
next
  case (Cons i rest)
  let ?b = "partition_base partitions i"
  let ?l = "partition_length partitions (length tensors) i"
  obtain r1 c1 where t: "TransferToServerInternal env (converter_order sched i) i dev
      (subspan tensors ?b ?l) c = (r1, c1)"
    by (cases "TransferToServerInternal env (converter_order sched i) i dev
      (subspan tensors ?b ?l) c")
  show ?case
  proof (cases "length partitions \<le> i")
    case True
    then show ?thesis by simp
  next
    case False
    show ?thesis
    proof (cases r1)
      case (Inl e1)
      with False t Cons [of results e1 c1] show ?thesis by (simp add: Let_def)
    next
      case (Inr part)
      with False t Cons [of "copy_results ?b ?l part results" e c1] show ?thesis
        by (simp add: Let_def)
    qed
  qed
qed

lemma senders_failed_not_Inr:
  "senders_failed env sched dev tensors partitions rest results e c \<noteq> (Inr results', c')"
  using senders_failed_Inl [of env sched dev tensors partitions rest results e c] by auto

lemma transferred_mono:
  "transferred dev t calls slot \<Longrightarrow> set calls \<subseteq> set calls' \<Longrightarrow> transferred dev t calls' slot"
  unfolding transferred_def by blast

lemma transfer_runner_result:
  assumes "transfer_runner env dev tensors s (map (\<lambda>i. (tensors ! i, i)) order)
             (replicate (length tensors) None) c = (r, c')"
  shows "\<exists>call. rpc_log c' = rpc_log c @ [call] \<and> scheduled c' = scheduled c \<and>
           counters c' ''XrtPartitionedTransferToServer'' = counters c ''XrtPartitionedTransferToServer'' \<and>
           options c' = options c \<and>
           (\<forall>results. r = Inr results \<longrightarrow> length results = length tensors \<and>
              (\<forall>k < length order. order ! k < length tensors \<and>
                  transferred dev (tensors ! (order ! k)) [call] (results ! (order ! k))))"
proof -
  let ?work = "map (\<lambda>i. (tensors ! i, i)) order"
  let ?req = "XRTAllocateFromTensor (feed_inputs ?work)"
  obtain resp c1 where run: "Run env s ?req c = (resp, c1)" by (cases "Run env s ?req c")
  note rl = Run_log [OF run]
  have feeds: "feed_inputs ?work = map (\<lambda>i. tensors ! i) order"
    and ims: "index_mapping ?work = order"
    by (simp_all add: feed_inputs_def index_mapping_def comp_def)
  show ?thesis
  proof (cases "status_ok resp \<and> length (outputs resp) = length order")
    case False
    with assms run have "r = Inl CheckFailure" "c' = c1"
      by (auto simp: transfer_runner_def split: if_splits)
    with rl show ?thesis by (intro exI [of _ "(s, ?req, resp)"]) simp
  next
    case True
    then have ok: "status_ok resp" and len: "length (outputs resp) = length order" by simp_all
    have resp: "resp = Response True (outputs resp)" using ok by (cases resp) simp
    show ?thesis
    proof (cases "store_handles dev tensors (outputs resp) order (replicate (length tensors) None)")
      case (Inl e)
      with assms run ok len ims have "r = Inl e" "c' = c1"
        by (auto simp: transfer_runner_def)
      with rl show ?thesis by (intro exI [of _ "(s, ?req, resp)"]) simp
    next
      case (Inr results)
      with assms run ok len ims have res: "r = Inr results"
        "c' = AddValue ''CreateDataHandles'' (length (outputs resp)) c1"
        by (auto simp: transfer_runner_def)
      note sl = store_handles_slots [OF Inr]
      have good: "order ! k < length tensors \<and>
          transferred dev (tensors ! (order ! k)) [(s, ?req, resp)] (results ! (order ! k))"
        if k: "k < length order" for k
      proof -
        let ?li = "order ! k"
        from sl k len have li: "?li < length tensors" and nn: "results ! ?li \<noteq> None" by auto
        from sl li have "results ! ?li = replicate (length tensors) None ! ?li \<or>
          (\<exists>k' < length (outputs resp). order ! k' = ?li \<and> ?li < length tensors \<and>
             (\<exists>h. outputs resp ! k' = Int64Scalar h \<and>
                results ! ?li = Some \<lparr>data_device = dev, data_shape = shape (tensors ! ?li),
                  get_handle = h\<rparr>))"
          by simp
        with nn li obtain k' h where k': "k' < length (outputs resp)" "order ! k' = ?li"
          "outputs resp ! k' = Int64Scalar h"
          "results ! ?li = Some \<lparr>data_device = dev, data_shape = shape (tensors ! ?li),
                  get_handle = h\<rparr>"
          by auto
        have "transferred dev (tensors ! ?li) [(s, ?req, resp)] (results ! ?li)"
          unfolding transferred_def
          apply (rule exI [of _ "\<lparr>data_device = dev, data_shape = shape (tensors ! ?li), get_handle = h\<rparr>"])
          apply (rule exI [of _ s])
          apply (rule exI [of _ "feed_inputs ?work"])
          apply (rule exI [of _ "outputs resp"])
          apply (rule exI [of _ k'])
          using k' len resp feeds by simp
        with li show ?thesis by simp
      qed
      have "length results = length tensors" using sl by simp
      with res rl good show ?thesis
        by (intro exI [of _ "(s, ?req, resp)"]) (simp add: AddValue_def)
    qed
  qed
qed

lemma TransferToServerInternal_result:
  assumes "TransferToServerInternal env order j dev tensors c = (r, c')"
  shows "\<exists>news cls. rpc_log c' = rpc_log c @ news \<and> length news \<le> 1 \<and>
           scheduled c' = scheduled c @ cls \<and> Sender \<notin> set cls \<and>
           counters c' ''XrtPartitionedTransferToServer'' = counters c ''XrtPartitionedTransferToServer'' \<and>
           options c' = options c \<and>
           (\<forall>results. r = Inr results \<longrightarrow> length results = length tensors \<and>
              (order \<noteq> [] \<longrightarrow> length news = 1) \<and>
              (\<forall>k < length order. order ! k < length tensors \<and>
                  transferred dev (tensors ! (order ! k)) news (results ! (order ! k))))"
proof (cases "GetEffectiveDevice (options c) dev")
  case (Inl e)
  with assms have "r = Inl e" "c' = c" by (simp_all add: TransferToServerInternal_def)
  then show ?thesis by (intro exI [of _ "[]"]) simp
next
  case (Inr device)
  let ?c1 = "Schedule (replicate (length tensors) Converter) c"
  show ?thesis
  proof (cases "run_converters env (options c) j device tensors order ([], [])")
    case (Inl e)
    with assms Inr have "r = Inl e" "c' = ?c1"
      by (simp_all add: TransferToServerInternal_def Let_def)
    then show ?thesis
      by (intro exI [of _ "[]"] exI [of _ "replicate (length tensors) Converter"])
         (simp add: Schedule_fields)
  next
    case (Inr maps)
    note conv = this
    let ?c2 = "Schedule (replicate (length (snd maps)) Runner) ?c1"
    from assms \<open>GetEffectiveDevice (options c) dev = Inr device\<close> conv
    have run: "run_transfer_runners env dev tensors (snd maps)
                 (replicate (length tensors) None) ?c2 = (r, c')"
      by (simp add: TransferToServerInternal_def Let_def)
    from run_converters_exact [OF conv]
    consider "snd maps = []" "order = []"
      | s where "snd maps = [(s, map (\<lambda>i. (tensors ! i, i)) order)]" "order \<noteq> []"
      by blast
    then show ?thesis
    proof cases
      case 1
      with run have "r = Inr (replicate (length tensors) None)" "c' = ?c2" by simp_all
      with 1 show ?thesis
        by (intro exI [of _ "[]"] exI [of _ "replicate (length tensors) Converter"])
           (simp add: Schedule_fields)
    next
      case 2
      obtain r1 c3 where tr: "transfer_runner env dev tensors s (map (\<lambda>i. (tensors ! i, i)) order)
             (replicate (length tensors) None) ?c2 = (r1, c3)"
        by (cases "transfer_runner env dev tensors s (map (\<lambda>i. (tensors ! i, i)) order)
             (replicate (length tensors) None) ?c2")
      from run 2 tr have rc: "r = r1" "c' = c3"
        by (auto simp: release_results_None split: sum.splits if_splits)
      from transfer_runner_result [OF tr] obtain call where call:
        "rpc_log c3 = rpc_log ?c2 @ [call]" "scheduled c3 = scheduled ?c2"
        "counters c3 ''XrtPartitionedTransferToServer'' = counters ?c2 ''XrtPartitionedTransferToServer''"
        "options c3 = options ?c2"
        "\<forall>results. r1 = Inr results \<longrightarrow> length results = length tensors \<and>
              (\<forall>k < length order. order ! k < length tensors \<and>
                  transferred dev (tensors ! (order ! k)) [call] (results ! (order ! k)))"
        by blast
      show ?thesis using call rc 2
        by (intro exI [of _ "[call]"]
              exI [of _ "replicate (length tensors) Converter @ replicate (length (snd maps)) Runner"])
           (simp add: Schedule_fields)
    qed
  qed
qed

subsection \<open>Schedules\<close>

lemma sort_upt_perm:
  assumes "sort order = [0..<n]"
  shows "length order = n" and "set order = {0..<n}" and "distinct order"
proof -
  have m: "mset order = mset [0..<n]" using assms by (metis mset_sort)
  show "length order = n" using m by (metis length_upt minus_nat.diff_0 size_mset)
  show "set order = {0..<n}" using m by (metis set_mset_mset set_upt)
  show "distinct order" using m by (metis distinct_upt mset_eq_imp_distinct_iff)
qed

lemma perm_covers:
  assumes "sort order = [0..<n]" "i < n"
  shows "\<exists>k < length order. order ! k = i"
  using sort_upt_perm(2) [OF assms(1)] assms(2) by (metis atLeastLessThan_iff in_set_conv_nth zero_le)

subsection \<open>The boundaries are a partition of the batch\<close>

lemma sorted_wrt_snoc_less:
  assumes "sorted_wrt (<) e" "e \<noteq> []" "last e < (i::nat)"
  shows "sorted_wrt (<) (e @ [i])"
proof -
  have "x < i" if "x \<in> set e" for x
  proof -
    from that obtain k where k: "k < length e" "x = e ! k" by (auto simp: in_set_conv_nth)
    show ?thesis
    proof (cases "k = length e - 1")
      case True
      with k assms show ?thesis by (simp add: last_conv_nth)
    next
      case False
      with k have "k < length e - 1" by simp
      with assms k have "e ! k < e ! (length e - 1)"
        by (simp add: sorted_wrt_iff_nth_less)
      with k assms show ?thesis by (simp add: last_conv_nth)
    qed
  qed
  with assms show ?thesis by (simp add: sorted_wrt_append)
qed

lemma partition_loop_bounds:
  "bounds_inv i ps \<Longrightarrow> bounds_inv (i + length rest) (partition_loop C rest i cur ps)"
proof (induction rest arbitrary: i cur ps)
  case Nil
  then show ?case by simp
next
  case (Cons t rest)
  let ?ps' = "(if ps = [] \<and> 0 < i then ps @ [0] else ps) @ [i]"
  have cut: "bounds_inv (Suc i) ?ps'"
  proof (cases "i = 0")
    case True
    with Cons.prems have "ps = []" by (auto simp: bounds_inv_def boundaries_def)
    with True show ?thesis by (simp add: bounds_inv_def boundaries_def)
  next
    case False
    have e': "boundaries ?ps' = boundaries ps @ [i]" using False by (simp add: boundaries_def)
    have ne: "boundaries ps \<noteq> []" by (simp add: boundaries_def)
    from Cons.prems False have "last (boundaries ps) < i" by (simp add: bounds_inv_def)
    with Cons.prems ne have "sorted_wrt (<) (boundaries ps @ [i])"
      by (intro sorted_wrt_snoc_less) (simp_all add: bounds_inv_def)
    moreover have "hd (boundaries ps @ [i]) = 0" using Cons.prems ne by (simp add: bounds_inv_def)
    ultimately show ?thesis unfolding bounds_inv_def e' by simp
  qed
  have keep: "bounds_inv (Suc i) ps"
    using Cons.prems by (auto simp: bounds_inv_def boundaries_def)
  show ?case
  proof (cases "C < cur + t")
    case True
    with Cons.IH [OF cut] show ?thesis by simp
  next
    case False
    with Cons.IH [OF keep] show ?thesis by simp
  qed
qed

lemma partition_sizes_bounds:
  "sorted_wrt (<) (partition_sizes C ts) \<and> hd (partition_sizes C ts) = 0 \<and>
   partition_sizes C ts \<noteq> [] \<and>
   (ts = [] \<and> partition_sizes C ts = [0] \<or> last (partition_sizes C ts) < length ts)"
proof -
  have "bounds_inv 0 []" by (simp add: bounds_inv_def boundaries_def)
  from partition_loop_bounds [OF this, of ts C 0]
  have b: "bounds_inv (length ts) (partition_loop C ts 0 0 [])" by simp
  have e: "partition_sizes C ts = boundaries (partition_loop C ts 0 0 [])"
    by (rule partition_sizes_boundaries)
  from b show ?thesis unfolding e by (auto simp: bounds_inv_def boundaries_def)
qed

lemma partition_end_le:
  assumes "sorted_wrt (<) e" "e \<noteq> []" "last e \<le> n" "p < length e"
  shows "partition_base e p + partition_length e n p \<le> n"
proof (cases "p + 1 < length e")
  case True
  then have lt: "e ! p < e ! (p + 1)" using assms by (simp add: sorted_wrt_iff_nth_less)
  have "e ! (p + 1) \<le> last e"
  proof (cases "p + 1 = length e - 1")
    case True then show ?thesis using assms by (simp add: last_conv_nth)
  next
    case False
    with True have "p + 1 < length e - 1" by simp
    then have "e ! (p + 1) < e ! (length e - 1)" using assms
      by (simp add: sorted_wrt_iff_nth_less)
    then show ?thesis using assms by (simp add: last_conv_nth)
  qed
  with True lt assms show ?thesis by (simp add: partition_base_def partition_length_def)
next
  case False
  with assms have "p = length e - 1" by simp
  then have "e ! p = last e" using assms by (simp add: last_conv_nth)
  with False assms show ?thesis by (simp add: partition_base_def partition_length_def)
qed

lemma partition_covers:
  "sorted_wrt (<) e \<Longrightarrow> e \<noteq> [] \<Longrightarrow> hd e = 0 \<Longrightarrow> i < n \<Longrightarrow>
   \<exists>p < length e. partition_base e p \<le> i \<and> i < partition_base e p + partition_length e n p"
proof (induction e arbitrary: n rule: rev_induct)
  case Nil
  then show ?case by simp
next
  case (snoc b e)
  show ?case
  proof (cases "b \<le> i")
    case True
    with snoc.prems show ?thesis
      by (intro exI [of _ "length e"]) (simp add: partition_base_def partition_length_def)
  next
    case False
    then have ib: "i < b" by simp
    have ne: "e \<noteq> []"
    proof
      assume "e = []"
      with snoc.prems have "b = 0" by simp
      with ib show False by simp
    qed
    have srt: "sorted_wrt (<) e" using snoc.prems by (simp add: sorted_wrt_append)
    have hd: "hd e = 0" using snoc.prems ne by simp
    from snoc.IH [OF srt ne hd ib] obtain p where p: "p < length e"
      "partition_base e p \<le> i" "i < partition_base e p + partition_length e b p"
      by blast
    have "partition_base (e @ [b]) p = partition_base e p"
      using p by (simp add: partition_base_def nth_append)
    moreover have "partition_length (e @ [b]) n p = partition_length e b p"
      using p by (auto simp: partition_length_def partition_base_def nth_append)
    ultimately show ?thesis using p by (intro exI [of _ p]) simp
  qed
qed

subsection \<open>The senders\<close>

lemma copy_results_Suc:
  "copy_results base (Suc len) part results =
      (copy_results base len part results)[base + len := part ! len]"
  by (simp add: copy_results_def)

lemma copy_results_length: "length (copy_results base len part results) = length results"
  by (induction len) (simp_all add: copy_results_Suc, simp add: copy_results_def)

lemma copy_results_inside:
  "base + len \<le> length results \<Longrightarrow> base \<le> i \<Longrightarrow> i < base + len \<Longrightarrow>
   copy_results base len part results ! i = part ! (i - base)"
proof (induction len)
  case 0
  then show ?case by simp
next
  case (Suc len)
  show ?case
  proof (cases "i = base + len")
    case True
    with Suc.prems show ?thesis
      by (simp add: copy_results_Suc copy_results_length)
  next
    case False
    with Suc.prems have "i < base + len" by simp
    with Suc False show ?thesis by (simp add: copy_results_Suc)
  qed
qed

lemma copy_results_outside:
  "i < base \<or> base + len \<le> i \<Longrightarrow> copy_results base len part results ! i = results ! i"
proof (induction len)
  case 0
  then show ?case by (simp add: copy_results_def)
next
  case (Suc len)
  then have "i \<noteq> base + len" by auto
  moreover from Suc have "copy_results base len part results ! i = results ! i" by auto
  ultimately show ?case by (simp add: copy_results_Suc)
qed

lemma subspan_nth:
  "base + len \<le> length xs \<Longrightarrow> length (subspan xs base len) = len \<and>
     (\<forall>r < len. subspan xs base len ! r = xs ! (base + r))"
  by (simp add: subspan_def)

lemma run_senders_result:
  assumes e: "sorted_wrt (<) e" "e \<noteq> []" "last e \<le> length tensors"
  shows "(\<forall>p \<in> set rest. sort (converter_order sched p) = [0..<partition_length e (length tensors) p]) \<Longrightarrow>
    length results = length tensors \<Longrightarrow>
    run_senders env sched dev tensors e rest results c = (Inr results', c') \<Longrightarrow>
    (\<exists>news. rpc_log c' = rpc_log c @ news \<and> length results' = length tensors \<and>
       (\<forall>i < length tensors. results' ! i = results ! i \<or>
           transferred dev (tensors ! i) news (results' ! i)) \<and>
       (\<forall>p \<in> set rest. \<forall>i. partition_base e p \<le> i \<and>
           i < partition_base e p + partition_length e (length tensors) p \<longrightarrow>
           transferred dev (tensors ! i) news (results' ! i)))"
proof (induction rest arbitrary: results c)
  case Nil
  then show ?case by (intro exI [of _ "[]"]) simp
next
  case (Cons p rest)
  let ?n = "length tensors"
  let ?b = "partition_base e p" and ?l = "partition_length e ?n p"
  let ?sub = "subspan tensors ?b ?l"
  let ?ord = "converter_order sched p"
  from Cons.prems(3) have p: "p < length e" by (auto split: if_splits)
  have bl: "?b + ?l \<le> ?n" by (rule partition_end_le [OF e p])
  note sub = subspan_nth [OF bl]
  obtain r1 c1 where t: "TransferToServerInternal env ?ord p dev ?sub c = (r1, c1)"
    by (cases "TransferToServerInternal env ?ord p dev ?sub c")
  with Cons.prems(3) p obtain part where part: "r1 = Inr part"
    and rec: "run_senders env sched dev tensors e rest (copy_results ?b ?l part results) c1
               = (Inr results', c')"
    by (auto simp: Let_def senders_failed_not_Inr split: sum.splits if_splits)
  from TransferToServerInternal_result [OF t] part obtain news1 where n1:
    "rpc_log c1 = rpc_log c @ news1" "length part = length ?sub"
    "\<forall>k < length ?ord. ?ord ! k < length ?sub \<and>
        transferred dev (?sub ! (?ord ! k)) news1 (part ! (?ord ! k))"
    by blast
  have ord: "sort ?ord = [0..<?l]" using Cons.prems(1) by simp
  have partok: "transferred dev (tensors ! (?b + r)) news1 (part ! r)" if r: "r < ?l" for r
  proof -
    from perm_covers [OF ord r] obtain k where "k < length ?ord" "?ord ! k = r" by blast
    with n1(3) have "transferred dev (?sub ! r) news1 (part ! r)" by auto
    with sub r show ?thesis by simp
  qed
  let ?res1 = "copy_results ?b ?l part results"
  from bl Cons.prems(2) have bl': "?b + ?l \<le> length results" by simp
  have len1: "length ?res1 = ?n" using Cons.prems(2) by (simp add: copy_results_length)
  have ords: "\<forall>p \<in> set rest. sort (converter_order sched p) = [0..<partition_length e ?n p]"
    using Cons.prems(1) by simp
  from Cons.IH [OF ords len1 rec] obtain news2 where n2:
    "rpc_log c' = rpc_log c1 @ news2" "length results' = ?n"
    "\<forall>i < ?n. results' ! i = ?res1 ! i \<or> transferred dev (tensors ! i) news2 (results' ! i)"
    "\<forall>q \<in> set rest. \<forall>i. partition_base e q \<le> i \<and>
           i < partition_base e q + partition_length e ?n q \<longrightarrow>
           transferred dev (tensors ! i) news2 (results' ! i)"
    by blast
  let ?news = "news1 @ news2"
  have m1: "transferred dev t news1 s \<Longrightarrow> transferred dev t ?news s" for t s
    by (rule transferred_mono) auto
  have m2: "transferred dev t news2 s \<Longrightarrow> transferred dev t ?news s" for t s
    by (rule transferred_mono) auto
  have inrange: "transferred dev (tensors ! i) ?news (results' ! i)"
    if i: "?b \<le> i" "i < ?b + ?l" for i
  proof -
    from i bl have in': "i < ?n" by simp
    from n2(3) in' consider "results' ! i = ?res1 ! i"
      | "transferred dev (tensors ! i) news2 (results' ! i)" by blast
    then show ?thesis
    proof cases
      case 1
      from i bl' have "?res1 ! i = part ! (i - ?b)" by (simp add: copy_results_inside)
      moreover from i have "i - ?b < ?l" by simp
      from partok [OF this] i have "transferred dev (tensors ! i) news1 (part ! (i - ?b))" by simp
      ultimately show ?thesis using 1 m1 by simp
    next
      case 2
      then show ?thesis by (rule m2)
    qed
  qed
  have A: "results' ! i = results ! i \<or> transferred dev (tensors ! i) ?news (results' ! i)"
    if i: "i < ?n" for i
  proof (cases "?b \<le> i \<and> i < ?b + ?l")
    case True
    then show ?thesis using inrange by simp
  next
    case False
    then have "i < ?b \<or> ?b + ?l \<le> i" by auto
    then have "?res1 ! i = results ! i" by (rule copy_results_outside)
    with n2(3) i m2 show ?thesis by auto
  qed
  have B: "transferred dev (tensors ! i) ?news (results' ! i)"
    if "q \<in> set (p # rest)" "partition_base e q \<le> i"
       "i < partition_base e q + partition_length e ?n q" for q i
  proof (cases "q = p")
    case True
    with that inrange show ?thesis by simp
  next
    case False
    with that have "q \<in> set rest" by simp
    with n2(4) that m2 show ?thesis by blast
  qed
  show ?case using n1(1) n2(1,2) A B by (intro exI [of _ ?news]) auto
qed

lemma PartitionTransferToServer_bounds:
  "sorted_wrt (<) (PartitionTransferToServer C bs tensors) \<and>
   hd (PartitionTransferToServer C bs tensors) = 0 \<and>
   PartitionTransferToServer C bs tensors \<noteq> [] \<and>
   last (PartitionTransferToServer C bs tensors) \<le> length tensors"
  using partition_sizes_bounds [of C "map (\<lambda>t. bs (shape t)) tensors"]
  by (auto simp: PartitionTransferToServer_def)

lemma valid_schedule_orders:
  assumes "valid_schedule sched e n"
  shows "sort (partition_order sched) = [0..<length e]"
    and "p < length e \<Longrightarrow> sort (converter_order sched p) = [0..<partition_length e n p]"
  using assms by (simp_all add: valid_schedule_def list_all_iff)

lemma TransferToServer_order:
  assumes valid: "valid_schedule sched
      (PartitionTransferToServer (max_partition_size env) (ByteSizeOfElements env) tensors)
      (length tensors)"
    and run: "TransferToServer env sched dev tensors c = (Inr results, c')"
  shows "length results = length tensors \<and>
     (\<forall>i < length tensors. transferred dev (tensors ! i) (new_rpcs c c') (results ! i))"
proof -
  let ?n = "length tensors"
  let ?e = "PartitionTransferToServer (max_partition_size env) (ByteSizeOfElements env) tensors"
  note b = PartitionTransferToServer_bounds [of "max_partition_size env" "ByteSizeOfElements env" tensors]
  from b have srt: "sorted_wrt (<) ?e" and hd: "hd ?e = 0" and ne: "?e \<noteq> []"
    and last: "last ?e \<le> ?n" by simp_all
  show ?thesis
  proof (cases "length ?e = 1")
    case True
    let ?ord = "converter_order sched 0"
    from run True have t: "TransferToServerInternal env ?ord 0 dev tensors c = (Inr results, c')"
      by (simp add: TransferToServer_def Let_def)
    from True hd have e: "?e = [0]" by (cases ?e) simp_all
    have "partition_length ?e ?n 0 = ?n"
      unfolding e by (simp add: partition_length_def partition_base_def)
    with valid_schedule_orders(2) [OF valid, of 0] True have ord: "sort ?ord = [0..<?n]" by simp
    from TransferToServerInternal_result [OF t] obtain news where n:
      "rpc_log c' = rpc_log c @ news" "length results = ?n"
      "\<forall>k < length ?ord. ?ord ! k < ?n \<and>
          transferred dev (tensors ! (?ord ! k)) news (results ! (?ord ! k))"
      by blast
    have nr: "new_rpcs c c' = news" by (rule new_rpcs_append [OF n(1)])
    have "transferred dev (tensors ! i) news (results ! i)" if "i < ?n" for i
    proof -
      from perm_covers [OF ord that] obtain k where "k < length ?ord" "?ord ! k = i" by blast
      with n(3) show ?thesis by auto
    qed
    with n(2) nr show ?thesis by simp
  next
    case False
    let ?c2 = "Schedule (replicate (length ?e) Sender)
                (AddValue ''XrtPartitionedTransferToServer'' 1 c)"
    from run False have s: "run_senders env sched dev tensors ?e (partition_order sched)
        (replicate ?n None) ?c2 = (Inr results, c')"
      by (simp add: TransferToServer_def Let_def)
    have po: "sort (partition_order sched) = [0..<length ?e]"
      by (rule valid_schedule_orders(1) [OF valid])
    have mem: "p < length ?e" if "p \<in> set (partition_order sched)" for p
      using sort_upt_perm(2) [OF po] that by simp
    have ords: "\<forall>p \<in> set (partition_order sched).
        sort (converter_order sched p) = [0..<partition_length ?e ?n p]"
      using valid_schedule_orders(2) [OF valid] mem by blast
    from run_senders_result [OF srt ne last ords _ s] obtain news where n:
      "rpc_log c' = rpc_log ?c2 @ news" "length results = ?n"
      "\<forall>p \<in> set (partition_order sched). \<forall>i. partition_base ?e p \<le> i \<and>
           i < partition_base ?e p + partition_length ?e ?n p \<longrightarrow>
           transferred dev (tensors ! i) news (results ! i)"
      by auto
    have "rpc_log ?c2 = rpc_log c" by (simp add: Schedule_fields AddValue_def)
    with n(1) have nr: "new_rpcs c c' = news" by (simp add: new_rpcs_def)
    have "transferred dev (tensors ! i) news (results ! i)" if i: "i < ?n" for i
    proof -
      from partition_covers [OF srt ne hd i] obtain p where p: "p < length ?e"
        "partition_base ?e p \<le> i" "i < partition_base ?e p + partition_length ?e ?n p"
        by blast
      from perm_covers [OF po p(1)] have "p \<in> set (partition_order sched)"
        by (auto simp: in_set_conv_nth)
      with n(3) p show ?thesis by blast
    qed
    with n(2) nr show ?thesis by simp
  qed
qed

subsection \<open>Reading back\<close>

lemma from_server_work_pairs:
  "from_server_work env opts handles i cur j smap m = Inr m' \<Longrightarrow>
   mset (concat (map snd m')) =
     mset (concat (map snd m)) + mset (map (\<lambda>k. (get_handle (handles ! k), i + k)) [0..<length handles])"
proof (induction handles arbitrary: i cur j smap m)
  case Nil
  then show ?case by simp
next
  case (Cons x rest)
  from Cons.prems obtain s smap' cur' j' where
    rec: "from_server_work env opts rest (i + 1) cur' j' smap'
            (map_push_back s (get_handle x, i) m) = Inr m'"
    by (auto simp: Let_def split: sum.splits prod.splits)
  have upt: "[0..<length (x # rest)] = 0 # map Suc [0..<length rest]"
    by (simp add: upt_conv_Cons map_Suc_upt del: upt_Suc)
  from Cons.IH [OF rec] show ?case
    unfolding upt by (simp add: mset_map_push_back comp_def)
qed

lemma store_literals_slots:
  "store_literals env outs ims results = Inr results' \<Longrightarrow>
   length results' = length results \<and> length outs \<le> length ims \<and>
   (\<forall>li < length results.
      (results' ! li = results ! li \<and> li \<notin> set (take (length outs) ims)) \<or>
      (\<exists>k < length outs. ims ! k = li \<and>
         (\<exists>proto. outs ! k = StringScalar proto \<and>
            LiteralFromProto env proto = Some (results' ! li)))) \<and>
   (\<forall>k < length outs. ims ! k < length results)"
proof (induction env outs ims results arbitrary: results' rule: store_literals.induct)
  case (1 env mapping results)
  then show ?case by simp
next
  case (2 env out outs results)
  then show ?case by simp
next
  case (3 env out outs li mapping results)
  from "3.prems" obtain proto lit where h: "scalar_tstring out = Inr proto"
    "LiteralFromProto env proto = Some lit"
    and li: "li < length results"
    by (auto split: if_splits sum.splits option.splits)
  let ?r1 = "results[li := lit]"
  from "3.prems" h li have rec: "store_literals env outs mapping ?r1 = Inr results'"
    by simp
  have out: "out = StringScalar proto" using h by (cases out) simp_all
  from "3.IH" [OF _ h(1) h(2) rec] li
  have len: "length results' = length results" "length outs \<le> length mapping"
    and slots: "\<forall>l < length results.
      (results' ! l = ?r1 ! l \<and> l \<notin> set (take (length outs) mapping)) \<or>
      (\<exists>k < length outs. mapping ! k = l \<and>
         (\<exists>proto. outs ! k = StringScalar proto \<and>
            LiteralFromProto env proto = Some (results' ! l)))"
    and written: "\<forall>k < length outs. mapping ! k < length results"
    by auto
  have s: "(results' ! l = results ! l \<and> l \<notin> set (take (length (out # outs)) (li # mapping))) \<or>
      (\<exists>k < length (out # outs). (li # mapping) ! k = l \<and>
         (\<exists>proto. (out # outs) ! k = StringScalar proto \<and>
            LiteralFromProto env proto = Some (results' ! l)))" if l: "l < length results" for l
  proof -
    from slots l consider (same) "results' ! l = ?r1 ! l" "l \<notin> set (take (length outs) mapping)"
      | (later) k p where "k < length outs" "mapping ! k = l"
          "outs ! k = StringScalar p" "LiteralFromProto env p = Some (results' ! l)"
      by blast
    then show ?thesis
    proof cases
      case same
      show ?thesis
      proof (cases "l = li")
        case True
        with same li have "results' ! l = lit" by simp
        with True h out show ?thesis by (intro disjI2 exI [of _ 0]) simp
      next
        case False
        with same show ?thesis by simp
      qed
    next
      case later
      then show ?thesis by (intro disjI2 exI [of _ "Suc k"]) simp
    qed
  qed
  have w: "(li # mapping) ! k < length results" if k: "k < length (out # outs)" for k
    using k written li by (cases k) simp_all
  show ?case using len s w by simp
qed

lemma fetched_mono:
  "fetched env h calls lit \<Longrightarrow> set calls \<subseteq> set calls' \<Longrightarrow> fetched env h calls' lit"
  unfolding fetched_def by blast

lemma run_read_sessions_result:
  "(\<forall>x \<in> set (concat (map snd m)). snd x < length handles \<and> fst x = get_handle (handles ! snd x)) \<Longrightarrow>
   length results = length handles \<Longrightarrow>
   run_read_sessions env m results c = (Inr results', c') \<Longrightarrow>
   \<exists>news. rpc_log c' = rpc_log c @ news \<and> length results' = length handles \<and>
     (\<forall>li < length handles.
        (results' ! li = results ! li \<and> li \<notin> snd ` set (concat (map snd m))) \<or>
        fetched env (get_handle (handles ! li)) news (results' ! li))"
proof (induction m arbitrary: results c)
  case Nil
  then show ?case by (intro exI [of _ "[]"]) simp
next
  case (Cons a m)
  obtain s work where a: "a = (s, work)" by (cases a)
  let ?n = "length handles"
  let ?req = "XRTReadLiteral (feed_inputs work)"
  obtain resp c1 where run: "Run env s ?req c = (resp, c1)" by (cases "Run env s ?req c")
  note rl = Run_log [OF run]
  have unf: "run_read_sessions env (a # m) results c =
      (if \<not> status_ok resp then (Inl CheckFailure, c1)
       else if length (outputs resp) \<noteq> length work then (Inl CheckFailure, c1)
       else (case store_literals env (outputs resp) (index_mapping work) results of
               Inl e \<Rightarrow> (Inl e, c1)
             | Inr results' \<Rightarrow> run_read_sessions env m results' c1))"
    using a run by simp
  have ok: "status_ok resp"
  proof (rule ccontr)
    assume "\<not> status_ok resp"
    with unf Cons.prems(3) show False by simp
  qed
  have len: "length (outputs resp) = length work"
  proof (rule ccontr)
    assume "length (outputs resp) \<noteq> length work"
    with unf ok Cons.prems(3) show False by simp
  qed
  obtain r1 where st: "store_literals env (outputs resp) (index_mapping work) results = Inr r1"
  proof (cases "store_literals env (outputs resp) (index_mapping work) results")
    case (Inl e)
    with unf ok len Cons.prems(3) show ?thesis by simp
  next
    case (Inr r1)
    then show ?thesis by (rule that)
  qed
  have rec: "run_read_sessions env m r1 c1 = (Inr results', c')"
    using unf ok len st Cons.prems(3) by simp
  have resp: "resp = Response True (outputs resp)" using ok by (cases resp) simp
  note sl = store_literals_slots [OF st]
  have ims: "length (index_mapping work) = length work" by (simp add: index_mapping_def)
  have len1: "length r1 = ?n" using sl Cons.prems(2) by simp
  have pairs: "\<forall>x \<in> set (concat (map snd m)). snd x < ?n \<and> fst x = get_handle (handles ! snd x)"
    using Cons.prems(1) by simp
  from Cons.IH [OF pairs len1 rec] obtain news2 where n2:
    "rpc_log c' = rpc_log c1 @ news2" "length results' = ?n"
    "\<forall>li < ?n. (results' ! li = r1 ! li \<and> li \<notin> snd ` set (concat (map snd m))) \<or>
        fetched env (get_handle (handles ! li)) news2 (results' ! li)"
    by blast
  let ?call = "(s, ?req, resp)"
  let ?news = "?call # news2"
  have slot: "(results' ! li = results ! li \<and> li \<notin> snd ` set (concat (map snd (a # m)))) \<or>
        fetched env (get_handle (handles ! li)) ?news (results' ! li)" if li: "li < ?n" for li
  proof -
    from n2(3) li consider
      (same) "results' ! li = r1 ! li" "li \<notin> snd ` set (concat (map snd m))"
      | (later) "fetched env (get_handle (handles ! li)) news2 (results' ! li)" by blast
    then show ?thesis
    proof cases
      case later
      then have "fetched env (get_handle (handles ! li)) ?news (results' ! li)"
        by (rule fetched_mono) auto
      then show ?thesis by simp
    next
      case same
      from sl li Cons.prems(2) consider
        (old) "r1 ! li = results ! li" "li \<notin> set (take (length (outputs resp)) (index_mapping work))"
        | (new) k proto where "k < length (outputs resp)" "index_mapping work ! k = li"
            "outputs resp ! k = StringScalar proto" "LiteralFromProto env proto = Some (r1 ! li)"
        by auto
      then show ?thesis
      proof cases
        case old
        from old(2) len ims have "li \<notin> snd ` set work" by (simp add: index_mapping_def)
        with old(1) same a show ?thesis by auto
      next
        case new
        from new(1) len have kw: "k < length work" by simp
        then have "work ! k \<in> set (concat (map snd (a # m)))" using a by simp
        with Cons.prems(1) have "fst (work ! k) = get_handle (handles ! snd (work ! k))" by blast
        moreover from new(2) kw have "snd (work ! k) = li" by (simp add: index_mapping_def)
        ultimately have fk: "feed_inputs work ! k = get_handle (handles ! li)"
          using kw by (simp add: feed_inputs_def)
        have "fetched env (get_handle (handles ! li)) ?news (r1 ! li)"
          unfolding fetched_def
          apply (rule exI [of _ s])
          apply (rule exI [of _ "feed_inputs work"])
          apply (rule exI [of _ "outputs resp"])
          apply (rule exI [of _ k])
          apply (rule exI [of _ proto])
          using new kw fk resp len by (simp add: feed_inputs_def)
        with same show ?thesis by simp
      qed
    qed
  qed
  show ?case using rl n2(1,2) slot by (intro exI [of _ ?news]) simp
qed

lemma TransferFromServerImpl_order:
  assumes "TransferFromServerImpl env handles c = (Inr literals, c')"
  shows "length literals = length handles \<and>
    (\<forall>i < length handles. fetched env (get_handle (handles ! i)) (new_rpcs c c') (literals ! i))"
proof -
  let ?n = "length handles"
  let ?f = "\<lambda>k. (get_handle (handles ! k), k)"
  obtain m where w: "from_server_work env (options c) handles 0 0 0 [] [] = Inr m"
  proof (cases "from_server_work env (options c) handles 0 0 0 [] []")
    case (Inl e)
    with assms show ?thesis by (simp add: TransferFromServerImpl_def)
  next
    case (Inr m)
    then show ?thesis by (rule that)
  qed
  have run: "run_read_sessions env m (replicate ?n []) c = (Inr literals, c')"
    using assms w by (simp add: TransferFromServerImpl_def)
  from from_server_work_pairs [OF w]
  have ms: "mset (concat (map snd m)) = mset (map ?f [0..<?n])"
    by simp
  have "set (concat (map snd m)) = set (map ?f [0..<?n])"
    by (rule mset_eq_setD [OF ms])
  then have st: "set (concat (map snd m)) = ?f ` {0..<?n}" by simp
  have pairs: "\<forall>x \<in> set (concat (map snd m)). snd x < ?n \<and> fst x = get_handle (handles ! snd x)"
  proof
    fix x assume "x \<in> set (concat (map snd m))"
    then obtain k where "k < ?n" "x = ?f k" unfolding st by auto
    then show "snd x < ?n \<and> fst x = get_handle (handles ! snd x)" by simp
  qed
  have len0: "length (replicate ?n ([]::string)) = ?n" by simp
  from run_read_sessions_result [OF pairs len0 run] obtain news where n:
    "rpc_log c' = rpc_log c @ news" "length literals = ?n"
    "\<forall>li < ?n. (literals ! li = replicate ?n [] ! li \<and> li \<notin> snd ` set (concat (map snd m))) \<or>
        fetched env (get_handle (handles ! li)) news (literals ! li)"
    by blast
  have nr: "new_rpcs c c' = news" by (rule new_rpcs_append [OF n(1)])
  have "fetched env (get_handle (handles ! i)) news (literals ! i)" if i: "i < ?n" for i
  proof -
    have "?f i \<in> set (concat (map snd m))" unfolding st using i by simp
    then have "snd (?f i) \<in> snd ` set (concat (map snd m))" by (rule imageI)
    then have "i \<in> snd ` set (concat (map snd m))" by simp
    with n(3) i show ?thesis by blast
  qed
  with n(2) nr show ?thesis by simp
qed

text \<open>
  Claim C2. For a schedule in which every sender and every converter runs once, a
  \<^verbatim>\<open>TransferToServer\<close> that returns gives a list as long as the batch whose slot \<open>i\<close>
  holds a device handle with the shape of tensor \<open>i\<close>, and the handle is the one that
  an allocation RPC of the call returned for the node that was fed tensor \<open>i\<close>; this
  for any number of partitions and any such schedule. A \<^verbatim>\<open>TransferFromServerImpl\<close>
  that returns gives a list as long as its input whose entry \<open>i\<close> is the literal that
  a read RPC of the call returned for the node that was fed handle \<open>i\<close>.
\<close>

theorem C2_transfers_keep_order:
  "(valid_schedule sched
      (PartitionTransferToServer (max_partition_size env) (ByteSizeOfElements env) tensors)
      (length tensors) \<and>
    TransferToServer env sched device_name tensors c = (Inr results, c') \<longrightarrow>
      length results = length tensors \<and>
      (\<forall>i < length tensors.
         transferred device_name (tensors ! i) (new_rpcs c c') (results ! i))) \<and>
   (TransferFromServerImpl env handles c = (Inr literals, c'') \<longrightarrow>
      length literals = length handles \<and>
      (\<forall>i < length handles.
         fetched env (get_handle (handles ! i)) (new_rpcs c c'') (literals ! i)))"
  using TransferToServer_order [of sched env tensors device_name c results c']
    TransferFromServerImpl_order [of env handles c literals c'']
  by blast

text \<open>
  Five tensors in three partitions whose senders run in the order 2, 0, 1: slot 3
  holds the handle 301 that the RPC of the second partition returned for tensor 3.
  Three handles on two workers: entry 1 is the literal read for handle 1.
\<close>

theorem C2_transfers_keep_order_witness:
  "valid_schedule schedule_three
     (PartitionTransferToServer (max_partition_size env_small) (ByteSizeOfElements env_small)
        big_batch) (length big_batch) \<and>
   fst (TransferToServer env_small schedule_three ''CPU:0'' big_batch client0) =
     Inr [Some \<lparr>data_device = ''CPU:0'', data_shape = ArrayShape U8 [4], get_handle = 201\<rparr>,
          Some \<lparr>data_device = ''CPU:0'', data_shape = ArrayShape U8 [4], get_handle = 200\<rparr>,
          Some \<lparr>data_device = ''CPU:0'', data_shape = ArrayShape U8 [4], get_handle = 300\<rparr>,
          Some \<lparr>data_device = ''CPU:0'', data_shape = ArrayShape U8 [4], get_handle = 301\<rparr>,
          Some \<lparr>data_device = ''CPU:0'', data_shape = ArrayShape U8 [4], get_handle = 100\<rparr>] \<and>
   transferred ''CPU:0'' (big_batch ! 3)
     (new_rpcs client0 (snd (TransferToServer env_small schedule_three ''CPU:0'' big_batch client0)))
     (Some \<lparr>data_device = ''CPU:0'', data_shape = ArrayShape U8 [4], get_handle = 301\<rparr>) \<and>
   fst (TransferFromServerImpl env0 some_handles client0) = Inr [''xxx'', ''x'', ''xx''] \<and>
   fetched env0 (get_handle (some_handles ! 1))
     (new_rpcs client0 (snd (TransferFromServerImpl env0 some_handles client0))) ''x''"
proof -
  let ?to = "TransferToServer env_small schedule_three ''CPU:0'' big_batch client0"
  let ?from = "TransferFromServerImpl env0 some_handles client0"
  let ?results = "[Some \<lparr>data_device = ''CPU:0'', data_shape = ArrayShape U8 [4], get_handle = 201\<rparr>,
          Some \<lparr>data_device = ''CPU:0'', data_shape = ArrayShape U8 [4], get_handle = 200\<rparr>,
          Some \<lparr>data_device = ''CPU:0'', data_shape = ArrayShape U8 [4], get_handle = 300\<rparr>,
          Some \<lparr>data_device = ''CPU:0'', data_shape = ArrayShape U8 [4], get_handle = 301\<rparr>,
          Some \<lparr>data_device = ''CPU:0'', data_shape = ArrayShape U8 [4], get_handle = 100\<rparr>]"
  have n: "length big_batch = 5" by (simp add: big_batch_def)
  have v: "valid_schedule schedule_three
     (PartitionTransferToServer (max_partition_size env_small) (ByteSizeOfElements env_small)
        big_batch) 5"
    by code_simp
  have v': "valid_schedule schedule_three
     (PartitionTransferToServer (max_partition_size env_small) (ByteSizeOfElements env_small)
        big_batch) (length big_batch)"
    using v n by simp
  have r: "fst ?to = Inr ?results" by code_simp
  then have run: "?to = (Inr ?results, snd ?to)" by (simp add: prod_eq_iff)
  have f: "fst ?from = Inr [''xxx'', ''x'', ''xx'']" by code_simp
  then have runf: "?from = (Inr [''xxx'', ''x'', ''xx''], snd ?from)" by (simp add: prod_eq_iff)
  note inst = C2_transfers_keep_order [where sched = schedule_three and env = env_small
      and tensors = big_batch and device_name = "''CPU:0''" and c = client0
      and results = "?results" and c' = "snd ?to"]
  note inst2 = C2_transfers_keep_order [where env = env0 and handles = some_handles
      and c = client0 and literals = "[''xxx'', ''x'', ''xx'']" and c'' = "snd ?from"]
  have all: "\<forall>i < length big_batch.
         transferred ''CPU:0'' (big_batch ! i) (new_rpcs client0 (snd ?to)) (?results ! i)"
    using inst v' run by blast
  have t3: "transferred ''CPU:0'' (big_batch ! 3) (new_rpcs client0 (snd ?to)) (?results ! 3)"
    using all [rule_format, of 3] n by simp
  have allf: "\<forall>i < length some_handles.
         fetched env0 (get_handle (some_handles ! i)) (new_rpcs client0 (snd ?from))
           ([''xxx'', ''x'', ''xx''] ! i)"
    using inst2 runf by blast
  have "length some_handles = 3" by (simp add: some_handles_def)
  then have f1: "fetched env0 (get_handle (some_handles ! 1)) (new_rpcs client0 (snd ?from))
           ([''xxx'', ''x'', ''xx''] ! 1)"
    using allf [rule_format, of 1] by simp
  show ?thesis using v' r t3 f f1 by simp
qed

lemma new_closures_append: "scheduled c' = scheduled c @ cls \<Longrightarrow> new_closures c c' = cls"
  by (simp add: new_closures_def)

text \<open>
  Claim C8. When the partitioning gives one partition, \<^verbatim>\<open>TransferToServer\<close> is the
  direct call of \<^verbatim>\<open>TransferToServerInternal\<close> on the whole batch: it schedules no
  sender closure, leaves the counter of partitioned transfers alone and makes at most
  one RPC; when the batch is not empty, every converter runs once and the transfer
  returns, it makes exactly one RPC.
\<close>

theorem C8_single_partition_fast_path:
  "length (PartitionTransferToServer (max_partition_size env) (ByteSizeOfElements env) tensors) = 1
   \<longrightarrow>
     TransferToServer env sched device_name tensors c =
       TransferToServerInternal env (converter_order sched 0) 0 device_name tensors c \<and>
     Sender \<notin> set (new_closures c (snd (TransferToServer env sched device_name tensors c))) \<and>
     counters (snd (TransferToServer env sched device_name tensors c))
         ''XrtPartitionedTransferToServer'' = counters c ''XrtPartitionedTransferToServer'' \<and>
     length (new_rpcs c (snd (TransferToServer env sched device_name tensors c))) \<le> 1 \<and>
     (tensors \<noteq> [] \<and>
      valid_schedule sched
        (PartitionTransferToServer (max_partition_size env) (ByteSizeOfElements env) tensors)
        (length tensors) \<and>
      fst (TransferToServer env sched device_name tensors c) = Inr results \<longrightarrow>
        length (new_rpcs c (snd (TransferToServer env sched device_name tensors c))) = 1)"
proof
  let ?e = "PartitionTransferToServer (max_partition_size env) (ByteSizeOfElements env) tensors"
  let ?ord = "converter_order sched 0"
  let ?n = "length tensors"
  assume one: "length ?e = 1"
  have eq: "TransferToServer env sched device_name tensors c =
       TransferToServerInternal env ?ord 0 device_name tensors c"
    using one by (simp add: TransferToServer_def Let_def)
  obtain r c' where t: "TransferToServerInternal env ?ord 0 device_name tensors c = (r, c')"
    by (cases "TransferToServerInternal env ?ord 0 device_name tensors c")
  from TransferToServerInternal_result [OF t] obtain news cls where n:
    "rpc_log c' = rpc_log c @ news" "length news \<le> 1"
    "scheduled c' = scheduled c @ cls" "Sender \<notin> set cls"
    "counters c' ''XrtPartitionedTransferToServer'' = counters c ''XrtPartitionedTransferToServer''"
    "\<forall>results. r = Inr results \<longrightarrow> (?ord \<noteq> [] \<longrightarrow> length news = 1)"
    by blast
  have nr: "new_rpcs c c' = news" by (rule new_rpcs_append [OF n(1)])
  have nc: "new_closures c c' = cls" by (rule new_closures_append [OF n(3)])
  have last: "length (new_rpcs c c') = 1"
    if h: "tensors \<noteq> [] \<and> valid_schedule sched ?e ?n \<and> r = Inr results"
  proof -
    from PartitionTransferToServer_bounds [of "max_partition_size env" "ByteSizeOfElements env" tensors]
    have "hd ?e = 0" by simp
    with one have e: "?e = [0]" by (cases ?e) simp_all
    have "partition_length ?e ?n 0 = ?n"
      unfolding e by (simp add: partition_length_def partition_base_def)
    with valid_schedule_orders(2) [of sched ?e ?n 0] h one have "sort ?ord = [0..<?n]" by simp
    from sort_upt_perm(1) [OF this] h have "?ord \<noteq> []" by auto
    with n(6) h nr show ?thesis by simp
  qed
  show "TransferToServer env sched device_name tensors c =
       TransferToServerInternal env (converter_order sched 0) 0 device_name tensors c \<and>
     Sender \<notin> set (new_closures c (snd (TransferToServer env sched device_name tensors c))) \<and>
     counters (snd (TransferToServer env sched device_name tensors c))
         ''XrtPartitionedTransferToServer'' = counters c ''XrtPartitionedTransferToServer'' \<and>
     length (new_rpcs c (snd (TransferToServer env sched device_name tensors c))) \<le> 1 \<and>
     (tensors \<noteq> [] \<and> valid_schedule sched ?e (length tensors) \<and>
      fst (TransferToServer env sched device_name tensors c) = Inr results \<longrightarrow>
        length (new_rpcs c (snd (TransferToServer env sched device_name tensors c))) = 1)"
    unfolding eq t using n(2,4,5) nr nc last by simp
qed

text \<open>
  Three tensors of the shapes \<open>[2,2]\<close>, \<open>[4]\<close> and \<open>[1]\<close> for \<open>CPU:0\<close>: one partition,
  three handles with these shapes, one RPC and no sender.
\<close>

theorem C8_single_partition_fast_path_witness:
  "length (PartitionTransferToServer (max_partition_size env0) (ByteSizeOfElements env0)
      small_batch) = 1 \<and>
   small_batch \<noteq> [] \<and>
   valid_schedule schedule_one
     (PartitionTransferToServer (max_partition_size env0) (ByteSizeOfElements env0) small_batch)
     (length small_batch) \<and>
   fst (TransferToServer env0 schedule_one ''CPU:0'' small_batch client0) =
     Inr [Some \<lparr>data_device = ''CPU:0'', data_shape = ArrayShape F32 [2, 2], get_handle = 101\<rparr>,
          Some \<lparr>data_device = ''CPU:0'', data_shape = ArrayShape F32 [4], get_handle = 102\<rparr>,
          Some \<lparr>data_device = ''CPU:0'', data_shape = ArrayShape F32 [1], get_handle = 100\<rparr>] \<and>
   length (new_rpcs client0 (snd (TransferToServer env0 schedule_one ''CPU:0'' small_batch client0)))
     = 1 \<and>
   Sender \<notin> set (new_closures client0
      (snd (TransferToServer env0 schedule_one ''CPU:0'' small_batch client0)))"
proof -
  let ?e = "PartitionTransferToServer (max_partition_size env0) (ByteSizeOfElements env0) small_batch"
  let ?results = "[Some \<lparr>data_device = ''CPU:0'', data_shape = ArrayShape F32 [2, 2], get_handle = 101\<rparr>,
          Some \<lparr>data_device = ''CPU:0'', data_shape = ArrayShape F32 [4], get_handle = 102\<rparr>,
          Some \<lparr>data_device = ''CPU:0'', data_shape = ArrayShape F32 [1], get_handle = 100\<rparr>]"
  have one: "length ?e = 1" by code_simp
  have ne: "small_batch \<noteq> []" by (simp add: small_batch_def)
  have "valid_schedule schedule_one ?e 3" by code_simp
  moreover have "length small_batch = 3" by (simp add: small_batch_def)
  ultimately have v: "valid_schedule schedule_one ?e (length small_batch)" by simp
  have r: "fst (TransferToServer env0 schedule_one ''CPU:0'' small_batch client0) = Inr ?results"
    by code_simp
  note inst = C8_single_partition_fast_path [where env = env0 and tensors = small_batch
      and sched = schedule_one and device_name = "''CPU:0''" and c = client0
      and results = "?results"]
  from inst one ne v r
  have "length (new_rpcs client0
          (snd (TransferToServer env0 schedule_one ''CPU:0'' small_batch client0))) = 1"
    and "Sender \<notin> set (new_closures client0
      (snd (TransferToServer env0 schedule_one ''CPU:0'' small_batch client0)))"
    by blast+
  with one ne v r show ?thesis by (intro conjI)
qed

section \<open>Replicas are grouped by session and results keep the device order\<close>

subsection \<open>Maps from sessions to vectors\<close>

lemma entries_Nil [simp]: "entries [] = {}"
  by (simp add: entries_def)

lemma entries_Cons: "entries ((s, xs) # m) = Pair s ` set xs \<union> entries m"
  by (auto simp: entries_def)

lemma entries_map_push_back: "entries (map_push_back s x m) = insert (s, x) (entries m)"
  by (induction s x m rule: map_push_back.induct) (auto simp: entries_Cons)

lemma keys_map_push_back: "fst ` set (map_push_back s x m) = insert s (fst ` set m)"
  by (induction s x m rule: map_push_back.induct) auto

lemma sorted_map_push_back:
  "sorted_wrt (<) (map fst m) \<Longrightarrow> sorted_wrt (<) (map fst (map_push_back s x m))"
proof (induction s x m rule: map_push_back.induct)
  case (1 session x)
  then show ?case by simp
next
  case (2 session x s xs m)
  show ?case
  proof (cases "session = s")
    case True
    with 2 show ?thesis by simp
  next
    case False
    show ?thesis
    proof (cases "session < s")
      case True
      with 2 False show ?thesis by auto
    next
      case nless: False
      from "2.prems" have srt: "sorted_wrt (<) (map fst m)" and lt: "\<forall>k \<in> fst ` set m. s < k"
        by auto
      from "2.IH" [OF False nless srt] have "sorted_wrt (<) (map fst (map_push_back session x m))" .
      moreover have "\<forall>k \<in> fst ` set (map_push_back session x m). s < k"
        unfolding keys_map_push_back using lt False nless by auto
      ultimately show ?thesis using False nless by auto
    qed
  qed
qed

lemma nonempty_map_push_back:
  "\<forall>e \<in> set m. snd e \<noteq> [] \<Longrightarrow> \<forall>e \<in> set (map_push_back s x m). snd e \<noteq> []"
  by (induction s x m rule: map_push_back.induct) auto

lemma session_replicas_entries:
  "session_replicas env opts smap devices i m = Inr m' \<Longrightarrow>
   sorted_wrt (<) (map fst m) \<Longrightarrow> \<forall>e \<in> set m. snd e \<noteq> [] \<Longrightarrow>
   (\<forall>s r. (s, r) \<in> entries m' \<longleftrightarrow> (s, r) \<in> entries m \<or>
      (\<exists>k < length devices. r = i + k \<and> replica_session env opts smap (devices ! k) = Inr s)) \<and>
   sorted_wrt (<) (map fst m') \<and> (\<forall>e \<in> set m'. snd e \<noteq> []) \<and>
   (\<forall>k < length devices. \<exists>s. replica_session env opts smap (devices ! k) = Inr s)"
proof (induction devices arbitrary: i m)
  case Nil
  then show ?case by simp
next
  case (Cons d devices)
  obtain s where s: "replica_session env opts smap d = Inr s"
  proof (cases "replica_session env opts smap d")
    case (Inl e)
    with Cons.prems(1) show ?thesis by simp
  next
    case (Inr s)
    then show ?thesis by (rule that)
  qed
  have rec: "session_replicas env opts smap devices (i + 1) (map_push_back s i m) = Inr m'"
    using Cons.prems(1) s by simp
  note IH = Cons.IH [OF rec sorted_map_push_back [OF Cons.prems(2)]
      nonempty_map_push_back [OF Cons.prems(3)]]
  from IH have ent: "\<And>s' r. (s', r) \<in> entries m' \<longleftrightarrow> (s', r) \<in> entries (map_push_back s i m) \<or>
      (\<exists>k < length devices. r = i + 1 + k \<and> replica_session env opts smap (devices ! k) = Inr s')"
    by blast
  from IH have rest: "sorted_wrt (<) (map fst m')" "\<forall>e \<in> set m'. snd e \<noteq> []" by blast+
  from IH have allk: "\<And>k. k < length devices \<Longrightarrow>
      \<exists>s. replica_session env opts smap (devices ! k) = Inr s" by blast
  have new: "(\<exists>k < length (d # devices). r = i + k \<and>
                replica_session env opts smap ((d # devices) ! k) = Inr s') \<longleftrightarrow>
             (s', r) = (s, i) \<or>
             (\<exists>k < length devices. r = i + 1 + k \<and>
                replica_session env opts smap (devices ! k) = Inr s')" (is "?L \<longleftrightarrow> ?R") for s' r
  proof
    assume ?L
    then obtain k where k: "k < length (d # devices)" "r = i + k"
      "replica_session env opts smap ((d # devices) ! k) = Inr s'" by blast
    show ?R
    proof (cases k)
      case 0
      with k s show ?thesis by simp
    next
      case (Suc k')
      with k have "k' < length devices" "r = i + 1 + k'"
        "replica_session env opts smap (devices ! k') = Inr s'" by simp_all
      then show ?thesis by blast
    qed
  next
    assume ?R
    then consider "(s', r) = (s, i)"
      | k where "k < length devices" "r = i + 1 + k"
          "replica_session env opts smap (devices ! k) = Inr s'" by blast
    then show ?L
    proof cases
      case 1
      with s show ?thesis by (intro exI [of _ 0]) simp
    next
      case 2
      then show ?thesis by (intro exI [of _ "Suc k"]) simp
    qed
  qed
  have e1: "(s', r) \<in> entries m' \<longleftrightarrow> (s', r) \<in> entries m \<or>
      (\<exists>k < length (d # devices). r = i + k \<and>
         replica_session env opts smap ((d # devices) ! k) = Inr s')" for s' r
    unfolding new ent entries_map_push_back by blast
  have all: "\<exists>s. replica_session env opts smap ((d # devices) ! k) = Inr s"
    if "k < length (d # devices)" for k
  proof (cases k)
    case 0
    with s show ?thesis by simp
  next
    case (Suc k')
    with that allk [of k'] show ?thesis by simp
  qed
  show ?case using e1 rest all by blast
qed

subsection \<open>One session runner\<close>

lemma exec_nodes_of_nth:
  "exec_nodes_of exec_ops replicas = Inr nodes \<Longrightarrow>
   length nodes = length replicas \<and> (\<forall>k < length replicas. nodes ! k = exec_ops ! (replicas ! k))"
proof (induction replicas arbitrary: nodes)
  case Nil
  then show ?case by simp
next
  case (Cons r replicas)
  from Cons.prems obtain rest where rest: "exec_nodes_of exec_ops replicas = Inr rest"
    and nodes: "nodes = exec_ops ! r # rest"
    by (cases "exec_nodes_of exec_ops replicas") (auto split: if_splits)
  from Cons.IH [OF rest] have IH: "length rest = length replicas"
    "\<forall>k < length replicas. rest ! k = exec_ops ! (replicas ! k)" by simp_all
  have "nodes ! k = exec_ops ! ((r # replicas) ! k)" if "k < length (r # replicas)" for k
    using that IH nodes by (cases k) simp_all
  with IH nodes show ?case by simp
qed

lemma store_results_slots:
  "store_results opts comps devs outs replicas results c = ((None, results'), c') \<Longrightarrow>
   rpc_log c' = rpc_log c \<and> options c' = options c \<and> scheduled c' = scheduled c \<and>
   length results' = length results \<and>
   (\<forall>l < length results.
      (results' ! l = results ! l \<and> l \<notin> set (take (length outs) replicas)) \<or>
      (\<exists>k < length outs. k < length replicas \<and> replicas ! k = l \<and>
         (\<exists>effective. GetEffectiveDevice opts (devs ! l) = Inr effective \<and>
            GetComputationResults opts (outs ! k) (program_shape_result (comps ! l)) effective
              = Inr (results' ! l))))"
proof (induction opts comps devs outs replicas results c arbitrary: results' c'
    rule: store_results.induct)
  case (1 opts computations devices replicas results c)
  then show ?case by simp
next
  case (2 opts computations devices out outs results c)
  then show ?case by simp
next
  case (3 opts comps devs out outs replica replicas results c)
  have inr: "replica < length results" "replica < length comps" "replica < length devs"
    using "3.prems" by (auto split: if_splits)
  then have guard: "\<not> (length results \<le> replica \<or> length comps \<le> replica \<or> length devs \<le> replica)"
    by simp
  obtain eff where eff: "GetEffectiveDevice opts (devs ! replica) = Inr eff"
  proof (cases "GetEffectiveDevice opts (devs ! replica)")
    case (Inl e)
    with "3.prems" guard show ?thesis by simp
  next
    case (Inr eff)
    then show ?thesis by (rule that)
  qed
  obtain rr where rr: "GetComputationResults opts out (program_shape_result (comps ! replica)) eff
      = Inr rr"
  proof (cases "GetComputationResults opts out (program_shape_result (comps ! replica)) eff")
    case (Inl e)
    with "3.prems" guard eff show ?thesis by simp
  next
    case (Inr rr)
    then show ?thesis by (rule that)
  qed
  let ?r1 = "results[replica := rr]"
  let ?c1 = "AddValue ''CreateDataHandles'' (length rr) c"
  have rec: "store_results opts comps devs outs replicas ?r1 ?c1 = ((None, results'), c')"
    using "3.prems" guard eff rr by simp
  from "3.IH" [OF guard eff rr rec]
  have st: "rpc_log c' = rpc_log ?c1" "options c' = options ?c1" "scheduled c' = scheduled ?c1"
      "length results' = length ?r1"
    and slots: "\<forall>l < length ?r1.
      (results' ! l = ?r1 ! l \<and> l \<notin> set (take (length outs) replicas)) \<or>
      (\<exists>k < length outs. k < length replicas \<and> replicas ! k = l \<and>
         (\<exists>effective. GetEffectiveDevice opts (devs ! l) = Inr effective \<and>
            GetComputationResults opts (outs ! k) (program_shape_result (comps ! l)) effective
              = Inr (results' ! l)))"
    by blast+
  have s: "(results' ! l = results ! l \<and> l \<notin> set (take (length (out # outs)) (replica # replicas))) \<or>
      (\<exists>k < length (out # outs). k < length (replica # replicas) \<and> (replica # replicas) ! k = l \<and>
         (\<exists>effective. GetEffectiveDevice opts (devs ! l) = Inr effective \<and>
            GetComputationResults opts ((out # outs) ! k) (program_shape_result (comps ! l)) effective
              = Inr (results' ! l)))" if l: "l < length results" for l
  proof -
    from slots l consider (same) "results' ! l = ?r1 ! l" "l \<notin> set (take (length outs) replicas)"
      | (later) k e where "k < length outs" "k < length replicas" "replicas ! k = l"
          "GetEffectiveDevice opts (devs ! l) = Inr e"
          "GetComputationResults opts (outs ! k) (program_shape_result (comps ! l)) e
              = Inr (results' ! l)"
      by auto
    then show ?thesis
    proof cases
      case same
      show ?thesis
      proof (cases "l = replica")
        case True
        with same inr have "results' ! l = rr" by simp
        with True eff rr show ?thesis by (intro disjI2 exI [of _ 0]) auto
      next
        case False
        with same show ?thesis by simp
      qed
    next
      case later
      then show ?thesis by (intro disjI2 exI [of _ "Suc k"]) auto
    qed
  qed
  show ?case using st s by (simp add: AddValue_def)
qed

lemma session_runner_result:
  assumes "session_runner env exec_ops comps devs session replicas results c =
      ((None, results'), c')"
  shows "\<exists>call. rpc_log c' = rpc_log c @ [call] \<and> fst call = session \<and>
     options c' = options c \<and> length results' = length results \<and>
     (\<forall>l < length results.
        (results' ! l = results ! l \<and> l \<notin> set replicas) \<or>
        (l \<in> set replicas \<and>
         (\<exists>effective. GetEffectiveDevice (options c) (devs ! l) = Inr effective \<and>
            executed (options c) (exec_ops ! l) (program_shape_result (comps ! l)) effective
              call (results' ! l))))"
proof -
  obtain nodes where nodes: "exec_nodes_of exec_ops replicas = Inr nodes"
  proof (cases "exec_nodes_of exec_ops replicas")
    case (Inl e)
    with assms show ?thesis by (simp add: session_runner_def)
  next
    case (Inr nodes)
    then show ?thesis by (rule that)
  qed
  note en = exec_nodes_of_nth [OF nodes]
  obtain resp c1 where run: "Run env session (XRTExecute nodes) c = (resp, c1)"
    by (cases "Run env session (XRTExecute nodes) c")
  note rl = Run_log [OF run]
  have unf: "session_runner env exec_ops comps devs session replicas results c =
     (if \<not> status_ok resp then ((Some ComputationError, results), c1)
      else if length (outputs resp) \<noteq> length nodes then ((Some CheckFailure, results), c1)
      else store_results (options c1) comps devs (outputs resp) replicas results c1)"
    using nodes run by (simp add: session_runner_def)
  have ok: "status_ok resp"
  proof (rule ccontr)
    assume "\<not> status_ok resp"
    with unf assms show False by simp
  qed
  have len: "length (outputs resp) = length nodes"
  proof (rule ccontr)
    assume "length (outputs resp) \<noteq> length nodes"
    with unf ok assms show False by simp
  qed
  have st: "store_results (options c) comps devs (outputs resp) replicas results c1
      = ((None, results'), c')"
    using unf ok len assms rl by simp
  have resp: "resp = Response True (outputs resp)" using ok by (cases resp) simp
  note sl = store_results_slots [OF st]
  let ?call = "(session, XRTExecute nodes, resp)"
  have slot: "(results' ! l = results ! l \<and> l \<notin> set replicas) \<or>
        (l \<in> set replicas \<and>
         (\<exists>effective. GetEffectiveDevice (options c) (devs ! l) = Inr effective \<and>
            executed (options c) (exec_ops ! l) (program_shape_result (comps ! l)) effective
              ?call (results' ! l)))" if l: "l < length results" for l
  proof -
    from sl l len en consider (same) "results' ! l = results ! l" "l \<notin> set replicas"
      | (new) k e where "k < length (outputs resp)" "k < length replicas" "replicas ! k = l"
          "GetEffectiveDevice (options c) (devs ! l) = Inr e"
          "GetComputationResults (options c) (outputs resp ! k) (program_shape_result (comps ! l)) e
              = Inr (results' ! l)"
      by auto
    then show ?thesis
    proof cases
      case same
      then show ?thesis by simp
    next
      case new
      have mem: "l \<in> set replicas" using new(2,3) by (auto simp: in_set_conv_nth)
      have "nodes ! k = exec_ops ! l" using en new by simp
      then have "executed (options c) (exec_ops ! l) (program_shape_result (comps ! l)) e
              ?call (results' ! l)"
        unfolding executed_def
        apply (intro exI [of _ nodes] exI [of _ "outputs resp"] exI [of _ k])
        using new len resp by simp
      with mem new(4) show ?thesis by blast
    qed
  qed
  show ?thesis using rl sl slot by (intro exI [of _ ?call]) simp
qed

subsection \<open>The runners of a run\<close>

lemma run_session_runners_result:
  "run_session_runners env exec_ops comps devs m order results failure c = ((None, results'), c') \<Longrightarrow>
   \<exists>news. rpc_log c' = rpc_log c @ news \<and> options c' = options c \<and>
     map fst news = map (\<lambda>p. fst (m ! p)) order \<and> length results' = length results \<and>
     (\<forall>l < length results. results' ! l = results ! l \<or>
        (\<exists>call \<in> set news. (fst call, l) \<in> entries m \<and>
           (\<exists>effective. GetEffectiveDevice (options c) (devs ! l) = Inr effective \<and>
              executed (options c) (exec_ops ! l) (program_shape_result (comps ! l)) effective
                call (results' ! l)))) \<and>
     (\<forall>p \<in> set order. \<forall>l \<in> set (snd (m ! p)). l < length results \<longrightarrow>
        (\<exists>call \<in> set news. (fst call, l) \<in> entries m \<and>
           (\<exists>effective. GetEffectiveDevice (options c) (devs ! l) = Inr effective \<and>
              executed (options c) (exec_ops ! l) (program_shape_result (comps ! l)) effective
                call (results' ! l))))"
proof (induction order arbitrary: results failure c)
  case Nil
  then show ?case by (intro exI [of _ "[]"]) simp
next
  case (Cons p order)
  let ?good = "\<lambda>news l v. \<exists>call \<in> set news. (fst call, l) \<in> entries m \<and>
           (\<exists>effective. GetEffectiveDevice (options c) (devs ! l) = Inr effective \<and>
              executed (options c) (exec_ops ! l) (program_shape_result (comps ! l)) effective
                call v)"
  have p: "p < length m"
  proof (rule ccontr)
    assume "\<not> p < length m"
    with Cons.prems show False by simp
  qed
  obtain f1 r1 c1 where sr: "session_runner env exec_ops comps devs (fst (m ! p)) (snd (m ! p))
      results c = ((f1, r1), c1)"
    by (cases "session_runner env exec_ops comps devs (fst (m ! p)) (snd (m ! p)) results c") auto
  have f1: "f1 = None"
  proof (cases f1)
    case None
    then show ?thesis .
  next
    case (Some e)
    show ?thesis
    proof (cases "thrown e")
      case True
      with Cons.prems p sr Some
      have "run_session_runners env exec_ops comps devs m order r1 (Some e) c1 = ((None, results'), c')"
        by simp
      moreover have "fst (fst (run_session_runners env exec_ops comps devs m order' r (Some e') c0)) \<noteq> None"
        for order' r e' c0
      proof (induction order' arbitrary: r e' c0)
        case Nil
        then show ?case by simp
      next
        case (Cons q order')
        obtain f2 r2 c2 where s2: "session_runner env exec_ops comps devs (fst (m ! q)) (snd (m ! q))
            r c0 = ((f2, r2), c2)"
          by (cases "session_runner env exec_ops comps devs (fst (m ! q)) (snd (m ! q)) r c0") auto
        show ?case
        proof (cases f2)
          case None
          with s2 Cons [of r2 e' c2] show ?thesis by simp
        next
          case (Some e2)
          with s2 Cons [of r2 e2 c2] show ?thesis by simp
        qed
      qed
      ultimately show ?thesis by (metis fst_conv)
    next
      case False
      with Cons.prems p sr Some show ?thesis by simp
    qed
  qed
  with Cons.prems p sr
  have rec: "run_session_runners env exec_ops comps devs m order r1 failure c1 = ((None, results'), c')"
    by simp
  from sr f1 have sr': "session_runner env exec_ops comps devs (fst (m ! p)) (snd (m ! p))
      results c = ((None, r1), c1)" by simp
  from session_runner_result [OF sr'] obtain call where call:
    "rpc_log c1 = rpc_log c @ [call]" "fst call = fst (m ! p)" "options c1 = options c"
    "length r1 = length results"
    "\<forall>l < length results.
        (r1 ! l = results ! l \<and> l \<notin> set (snd (m ! p))) \<or>
        (l \<in> set (snd (m ! p)) \<and>
         (\<exists>effective. GetEffectiveDevice (options c) (devs ! l) = Inr effective \<and>
            executed (options c) (exec_ops ! l) (program_shape_result (comps ! l)) effective
              call (r1 ! l)))"
    by blast
  from Cons.IH [OF rec] obtain news where n:
    "rpc_log c' = rpc_log c1 @ news" "options c' = options c1"
    "map fst news = map (\<lambda>p. fst (m ! p)) order" "length results' = length r1"
    "\<forall>l < length r1. results' ! l = r1 ! l \<or>
        (\<exists>call \<in> set news. (fst call, l) \<in> entries m \<and>
           (\<exists>effective. GetEffectiveDevice (options c1) (devs ! l) = Inr effective \<and>
              executed (options c1) (exec_ops ! l) (program_shape_result (comps ! l)) effective
                call (results' ! l)))"
    "\<forall>q \<in> set order. \<forall>l \<in> set (snd (m ! q)). l < length r1 \<longrightarrow>
        (\<exists>call \<in> set news. (fst call, l) \<in> entries m \<and>
           (\<exists>effective. GetEffectiveDevice (options c1) (devs ! l) = Inr effective \<and>
              executed (options c1) (exec_ops ! l) (program_shape_result (comps ! l)) effective
                call (results' ! l)))"
    by blast
  let ?news = "call # news"
  have ent: "(fst call, l) \<in> entries m" if "l \<in> set (snd (m ! p))" for l
  proof -
    have "(fst (m ! p), snd (m ! p)) \<in> set m" using p by simp
    with that have "\<exists>xs. (fst (m ! p), xs) \<in> set m \<and> l \<in> set xs" by blast
    with call(2) show ?thesis unfolding entries_def by simp
  qed
  have later: "?good ?news l v" if "?good news l v" for l v
    using that by auto
  have here: "?good ?news l (r1 ! l)"
    if "l \<in> set (snd (m ! p))" "l < length results" for l
  proof -
    from call(5) that obtain effective where
      "GetEffectiveDevice (options c) (devs ! l) = Inr effective"
      "executed (options c) (exec_ops ! l) (program_shape_result (comps ! l)) effective call (r1 ! l)"
      by blast
    with ent [OF that(1)] show ?thesis by auto
  qed
  have n5: "\<forall>l < length results. results' ! l = r1 ! l \<or> ?good news l (results' ! l)"
    using n(5) call(3,4) by simp
  have n6: "\<forall>q \<in> set order. \<forall>l \<in> set (snd (m ! q)). l < length results \<longrightarrow>
      ?good news l (results' ! l)"
    using n(6) call(3,4) by simp
  have A: "results' ! l = results ! l \<or> ?good ?news l (results' ! l)"
    if l: "l < length results" for l
  proof -
    from n5 l consider "results' ! l = r1 ! l" | "?good news l (results' ! l)" by blast
    then show ?thesis
    proof cases
      case 1
      show ?thesis
      proof (cases "l \<in> set (snd (m ! p))")
        case True
        from here [OF True l] 1 show ?thesis by simp
      next
        case False
        with call(5) l have "r1 ! l = results ! l" by blast
        with 1 show ?thesis by simp
      qed
    next
      case 2
      then show ?thesis using later by blast
    qed
  qed
  have B: "?good ?news l (results' ! l)"
    if q: "q \<in> set (p # order)" and lq: "l \<in> set (snd (m ! q))" and l: "l < length results"
    for q l
  proof -
    from n5 l consider "results' ! l = r1 ! l" | "?good news l (results' ! l)" by blast
    then show ?thesis
    proof cases
      case 1
      show ?thesis
      proof (cases "q = p")
        case True
        with here [of l] lq l 1 show ?thesis by simp
      next
        case False
        with q have "q \<in> set order" by simp
        with n6 lq l have "?good news l (results' ! l)" by blast
        then show ?thesis using later by blast
      qed
    next
      case 2
      then show ?thesis using later by blast
    qed
  qed
  have "rpc_log c' = rpc_log c @ ?news" using n(1) call(1) by simp
  moreover have "options c' = options c" using n(2) call(3) by simp
  moreover have "map fst ?news = map (\<lambda>p. fst (m ! p)) (p # order)" using n(3) call(2) by simp
  moreover have "length results' = length results" using n(4) call(4) by simp
  moreover have "\<forall>l < length results. results' ! l = results ! l \<or> ?good ?news l (results' ! l)"
    using A by blast
  moreover have "\<forall>q \<in> set (p # order). \<forall>l \<in> set (snd (m ! q)). l < length results \<longrightarrow>
      ?good ?news l (results' ! l)"
    using B by blast
  ultimately show ?case by (intro exI [of _ ?news] conjI)
qed

subsection \<open>One RPC for every session\<close>

lemma replica_session_target:
  "replica_session env opts session_map device =
     (case device_target env opts device of
        Inl e \<Rightarrow> Inl e
      | Inr target \<Rightarrow>
          (case map_of session_map target of None \<Rightarrow> Inl OutOfRange | Some s \<Rightarrow> Inr s))"
  by (simp add: replica_session_def device_target_def split: sum.splits)

lemma distinct_map_nth:
  assumes "distinct xs" "distinct order" "\<forall>p \<in> set order. p < length xs"
  shows "distinct (map ((!) xs) order)"
proof -
  have "inj_on ((!) xs) (set order)"
    using assms(1,3) by (auto simp: inj_on_def nth_eq_iff_index_eq)
  with assms(2) show ?thesis by (simp add: distinct_map)
qed

lemma sorted_wrt_less_distinct: "sorted_wrt (<) (xs :: nat list) \<Longrightarrow> distinct xs"
  by (induction xs) auto

lemma RunComputations_result:
  assumes run: "RunComputations env order session_map exec_ops comps devs c = (Inr results, c')"
    and sr: "session_replicas env (options c) session_map devs 0 [] = Inr m"
    and ord: "sort order = [0..<length m]"
  shows "length results = length devs"
    and "\<forall>i < length devs. \<exists>call \<in> set (new_rpcs c c').
           served env (options c) session_map exec_ops comps devs i call (results ! i)"
    and "distinct (map fst (new_rpcs c c'))"
    and "length (new_rpcs c c') =
       card {s. \<exists>i < length devs. replica_session env (options c) session_map (devs ! i) = Inr s}"
proof -
  let ?n = "length devs"
  let ?c1 = "Schedule (replicate (length m) Runner) c"
  let ?S = "{s. \<exists>i < ?n. replica_session env (options c) session_map (devs ! i) = Inr s}"
  from run sr have len: "length comps = ?n"
    by (auto simp: RunComputations_def split: if_splits)
  obtain f r c2 where rr: "run_session_runners env exec_ops comps devs m order
      (replicate ?n []) None ?c1 = ((f, r), c2)"
    by (cases "run_session_runners env exec_ops comps devs m order (replicate ?n []) None ?c1")
       auto
  from run sr len rr have f: "f = None" and res: "r = results" "c2 = c'"
    by (auto simp: RunComputations_def split: option.splits)
  from rr f res have rr': "run_session_runners env exec_ops comps devs m order
      (replicate ?n []) None ?c1 = ((None, results), c')" by simp
  have o1: "options ?c1 = options c" and l1: "rpc_log ?c1 = rpc_log c"
    by (simp_all add: Schedule_fields)
  from run_session_runners_result [OF rr'] obtain news where n:
    "rpc_log c' = rpc_log c @ news" "map fst news = map (\<lambda>p. fst (m ! p)) order"
    "length results = ?n"
    "\<forall>p \<in> set order. \<forall>l \<in> set (snd (m ! p)). l < ?n \<longrightarrow>
        (\<exists>call \<in> set news. (fst call, l) \<in> entries m \<and>
           (\<exists>effective. GetEffectiveDevice (options c) (devs ! l) = Inr effective \<and>
              executed (options c) (exec_ops ! l) (program_shape_result (comps ! l)) effective
                call (results ! l)))"
    unfolding o1 l1 by auto
  have nr: "new_rpcs c c' = news" by (rule new_rpcs_append [OF n(1)])
  from session_replicas_entries [OF sr] have ent:
    "\<And>s l. (s, l) \<in> entries m \<longleftrightarrow>
        (\<exists>k < ?n. l = k \<and> replica_session env (options c) session_map (devs ! k) = Inr s)"
    and srt: "sorted_wrt (<) (map fst m)" and ne: "\<forall>e \<in> set m. snd e \<noteq> []"
    and alls: "\<And>k. k < ?n \<Longrightarrow> \<exists>s. replica_session env (options c) session_map (devs ! k) = Inr s"
    by simp_all
  note po = sort_upt_perm [OF ord]
  show "length results = ?n" by (rule n(3))
  show "\<forall>i < ?n. \<exists>call \<in> set (new_rpcs c c').
           served env (options c) session_map exec_ops comps devs i call (results ! i)"
  proof (intro allI impI)
    fix i assume i: "i < ?n"
    from alls [OF i] obtain s where s: "replica_session env (options c) session_map (devs ! i) = Inr s"
      by blast
    with i ent have "(s, i) \<in> entries m" by blast
    then obtain xs where xs: "(s, xs) \<in> set m" "i \<in> set xs" unfolding entries_def by blast
    then obtain p where p: "p < length m" "m ! p = (s, xs)" by (auto simp: in_set_conv_nth)
    from po(2) p(1) have "p \<in> set order" by simp
    with n(4) p(2) xs(2) i obtain call effective where call: "call \<in> set news"
      "(fst call, i) \<in> entries m"
      "GetEffectiveDevice (options c) (devs ! i) = Inr effective"
      "executed (options c) (exec_ops ! i) (program_shape_result (comps ! i)) effective
         call (results ! i)"
      by fastforce
    from call(2) ent have "replica_session env (options c) session_map (devs ! i) = Inr (fst call)"
      by blast
    with call(3,4) have "served env (options c) session_map exec_ops comps devs i call (results ! i)"
      unfolding served_def by blast
    with call(1) nr show "\<exists>call \<in> set (new_rpcs c c').
           served env (options c) session_map exec_ops comps devs i call (results ! i)"
      by blast
  qed
  have dk: "distinct (map fst m)" by (rule sorted_wrt_less_distinct [OF srt])
  have mf: "map fst news = map ((!) (map fst m)) order"
    unfolding n(2) using po(2) by simp
  show "distinct (map fst (new_rpcs c c'))"
    unfolding nr mf using dk po(2,3) by (intro distinct_map_nth) simp_all
  have keys: "set (map fst m) = ?S"
  proof (intro set_eqI iffI)
    fix s assume "s \<in> set (map fst m)"
    then obtain xs where xs: "(s, xs) \<in> set m" by auto
    with ne have "xs \<noteq> []" by auto
    then obtain l where "l \<in> set xs" by (cases xs) auto
    with xs have "(s, l) \<in> entries m" unfolding entries_def by blast
    with ent show "s \<in> ?S" by blast
  next
    fix s assume "s \<in> ?S"
    then obtain i where "i < ?n" "replica_session env (options c) session_map (devs ! i) = Inr s"
      by blast
    with ent have "(s, i) \<in> entries m" by blast
    then show "s \<in> set (map fst m)" unfolding entries_def by force
  qed
  have "length news = length order" using n(2) by (metis length_map)
  also have "\<dots> = length (map fst m)" using po(1) by simp
  also have "\<dots> = card (set (map fst m))" using distinct_card [OF dk] by simp
  finally show "length (new_rpcs c c') = card ?S" unfolding nr keys .
qed

lemma GetArgumentsInputs_handles:
  "GetArgumentsInputs args device = Inr inputs \<Longrightarrow> inputs = map get_handle args"
proof (induction args arbitrary: inputs)
  case Nil
  then show ?case by simp
next
  case (Cons a args)
  then show ?case
    by (cases "GetArgumentsInputs args device") (auto split: if_splits)
qed

lemma CreateExecuteOps_nodes:
  "CreateExecuteOps env opts sm computation arguments explode devices = Inr (exec_ops, sm') \<Longrightarrow>
   length exec_ops = length arguments \<and>
   (\<forall>i < length arguments.
      node_for opts computation (arguments ! i) (devices ! i) explode (exec_ops ! i))"
proof (induction env opts sm computation arguments explode devices arbitrary: exec_ops sm'
    rule: CreateExecuteOps.induct)
  case (1 env opts session_map computation explode_tuple devices)
  then show ?case by simp
next
  case (2 env opts session_map computation args arguments explode_tuple)
  then show ?case by simp
next
  case (3 env opts session_map computation args arguments explode_tuple device devices)
  obtain inputs where inputs: "GetArgumentsInputs args device = Inr inputs"
  proof (cases "GetArgumentsInputs args device")
    case (Inl e)
    with "3.prems" show ?thesis by simp
  next
    case (Inr inputs)
    then show ?thesis by (rule that)
  qed
  obtain xd where xd: "SwiftDeviceToXrtDevice opts device = Inr xd"
  proof (cases "SwiftDeviceToXrtDevice opts device")
    case (Inl e)
    with "3.prems" inputs show ?thesis by simp
  next
    case (Inr xd)
    then show ?thesis by (rule that)
  qed
  obtain s sm1 where s: "GetSessionForXrtDevice env opts SessionCache 0 xd session_map = Inr (s, sm1)"
  proof (cases "GetSessionForXrtDevice env opts SessionCache 0 xd session_map")
    case (Inl e)
    with "3.prems" inputs xd show ?thesis by simp
  next
    case (Inr p)
    then show ?thesis by (cases p) (auto intro: that)
  qed
  obtain rest sm2 where rest: "CreateExecuteOps env opts sm1 computation arguments explode_tuple
      devices = Inr (rest, sm2)"
  proof (cases "CreateExecuteOps env opts sm1 computation arguments explode_tuple devices")
    case (Inl e)
    with "3.prems" inputs xd s show ?thesis by simp
  next
    case (Inr p)
    then show ?thesis by (cases p) (auto intro: that)
  qed
  let ?node = "\<lparr>exec_device = xd, exec_computation_handle = computation_handle computation,
      exec_explode_tuple = explode_tuple, exec_inputs = inputs\<rparr>"
  from "3.prems" inputs xd s rest have ops: "exec_ops = ?node # rest" by simp
  from "3.IH" [OF inputs xd s refl rest]
  have IH: "length rest = length arguments"
    "\<forall>i < length arguments.
       node_for opts computation (arguments ! i) (devices ! i) explode_tuple (rest ! i)"
    by simp_all
  have first: "node_for opts computation args device explode_tuple ?node"
    using xd GetArgumentsInputs_handles [OF inputs] by (simp add: node_for_def)
  have "node_for opts computation ((args # arguments) ! i) ((device # devices) ! i)
      explode_tuple (exec_ops ! i)" if "i < length (args # arguments)" for i
    using that first IH(2) ops by (cases i) simp_all
  with IH(1) ops show ?case by simp
qed

subsection \<open>Every replica has an execute node\<close>

lemma exec_nodes_of_bound:
  "exec_nodes_of exec_ops replicas = Inr nodes \<Longrightarrow> \<forall>r \<in> set replicas. r < length exec_ops"
proof (induction replicas arbitrary: nodes)
  case Nil
  then show ?case by simp
next
  case (Cons r replicas)
  then show ?case
    by (cases "exec_nodes_of exec_ops replicas") (auto split: if_splits)
qed

lemma session_runner_bound:
  assumes "session_runner env exec_ops comps devs session replicas results c = ((None, results'), c')"
  shows "\<forall>r \<in> set replicas. r < length exec_ops"
proof (cases "exec_nodes_of exec_ops replicas")
  case (Inl e)
  with assms show ?thesis by (simp add: session_runner_def)
next
  case (Inr nodes)
  then show ?thesis by (rule exec_nodes_of_bound)
qed

lemma run_session_runners_Some:
  "fst (fst (run_session_runners env exec_ops comps devs m order results (Some e) c)) \<noteq> None"
proof (induction order arbitrary: results e c)
  case Nil
  then show ?case by simp
next
  case (Cons q order)
  obtain f2 r2 c2 where s2: "session_runner env exec_ops comps devs (fst (m ! q)) (snd (m ! q))
      results c = ((f2, r2), c2)"
    by (cases "session_runner env exec_ops comps devs (fst (m ! q)) (snd (m ! q)) results c") auto
  show ?case
  proof (cases f2)
    case None
    with s2 Cons [of r2 e c2] show ?thesis by simp
  next
    case (Some e2)
    with s2 Cons [of r2 e2 c2] show ?thesis by simp
  qed
qed

lemma run_session_runners_bound:
  "run_session_runners env exec_ops comps devs m order results failure c = ((None, results'), c') \<Longrightarrow>
   \<forall>p \<in> set order. \<forall>l \<in> set (snd (m ! p)). l < length exec_ops"
proof (induction order arbitrary: results failure c)
  case Nil
  then show ?case by simp
next
  case (Cons p order)
  have p: "p < length m"
  proof (rule ccontr)
    assume "\<not> p < length m"
    with Cons.prems show False by simp
  qed
  obtain f1 r1 c1 where sr: "session_runner env exec_ops comps devs (fst (m ! p)) (snd (m ! p))
      results c = ((f1, r1), c1)"
    by (cases "session_runner env exec_ops comps devs (fst (m ! p)) (snd (m ! p)) results c") auto
  have f1: "f1 = None"
  proof (cases f1)
    case None
    then show ?thesis .
  next
    case (Some e)
    show ?thesis
    proof (cases "thrown e")
      case True
      with Cons.prems p sr Some
      have "run_session_runners env exec_ops comps devs m order r1 (Some e) c1 = ((None, results'), c')"
        by simp
      with run_session_runners_Some [of env exec_ops comps devs m order r1 e c1]
      show ?thesis by simp
    next
      case False
      with Cons.prems p sr Some show ?thesis by simp
    qed
  qed
  with Cons.prems p sr
  have rec: "run_session_runners env exec_ops comps devs m order r1 failure c1 = ((None, results'), c')"
    by simp
  from sr f1 have "\<forall>l \<in> set (snd (m ! p)). l < length exec_ops"
    by (intro session_runner_bound) simp
  with Cons.IH [OF rec] show ?case by simp
qed

lemma RunComputations_bound:
  assumes run: "RunComputations env order session_map exec_ops comps devs c = (Inr results, c')"
    and sr: "session_replicas env (options c) session_map devs 0 [] = Inr m"
    and ord: "sort order = [0..<length m]"
  shows "length devs \<le> length exec_ops"
proof -
  let ?n = "length devs"
  let ?c1 = "Schedule (replicate (length m) Runner) c"
  from run sr have len: "length comps = ?n"
    by (auto simp: RunComputations_def split: if_splits)
  obtain f r c2 where rr: "run_session_runners env exec_ops comps devs m order
      (replicate ?n []) None ?c1 = ((f, r), c2)"
    by (cases "run_session_runners env exec_ops comps devs m order (replicate ?n []) None ?c1")
       auto
  from run sr len rr have f: "f = None"
    by (auto simp: RunComputations_def split: option.splits)
  note b = run_session_runners_bound [OF rr [unfolded f]]
  from session_replicas_entries [OF sr] have ent:
    "\<And>s l. (s, l) \<in> entries m \<longleftrightarrow>
        (\<exists>k < ?n. l = k \<and> replica_session env (options c) session_map (devs ! k) = Inr s)"
    and alls: "\<And>k. k < ?n \<Longrightarrow> \<exists>s. replica_session env (options c) session_map (devs ! k) = Inr s"
    by simp_all
  have "i < length exec_ops" if i: "i < ?n" for i
  proof -
    from alls [OF i] obtain s where "replica_session env (options c) session_map (devs ! i) = Inr s"
      by blast
    with i ent have "(s, i) \<in> entries m" by blast
    then obtain xs where xs: "(s, xs) \<in> set m" "i \<in> set xs" unfolding entries_def by blast
    then obtain p where p: "p < length m" "m ! p = (s, xs)" by (auto simp: in_set_conv_nth)
    from sort_upt_perm(2) [OF ord] p(1) have "p \<in> set order" by simp
    with b p(2) xs(2) show ?thesis by fastforce
  qed
  then show ?thesis by (meson not_less order_refl less_le_trans leI less_irrefl)
qed

text \<open>
  Claim C7. \<^verbatim>\<open>ExecuteReplicated\<close> and \<^verbatim>\<open>ExecuteParallel\<close> both end in \<^verbatim>\<open>RunComputations\<close>.
  For any order in which the session runners complete, a \<^verbatim>\<open>RunComputations\<close> that
  returns gives one result list for every device, and the list at index \<open>i\<close> is what
  \<^verbatim>\<open>GetComputationResults\<close> makes of the output that a successful execution RPC of the
  run, sent to the session of the RPC target of the worker of device \<open>i\<close>, returned for
  the execute node of index \<open>i\<close>. No session gets two RPCs and the number of RPCs is
  the number of sessions of the devices, so two devices whose workers have the same
  RPC target are served by the same RPC. For \<^verbatim>\<open>ExecuteReplicated\<close> the execute node of
  index \<open>i\<close> is the node of the computation on device \<open>i\<close> that is fed the handles of
  argument list \<open>i\<close>.
\<close>

theorem C7_replicas_grouped_by_session:
  "(valid_runner_order env (options c) session_map devices order \<and>
    RunComputations env order session_map exec_ops computations devices c = (Inr results, c') \<longrightarrow>
      length results = length devices \<and>
      (\<forall>i < length devices. \<exists>call \<in> set (new_rpcs c c').
          served env (options c) session_map exec_ops computations devices i call (results ! i)) \<and>
      distinct (map fst (new_rpcs c c')) \<and>
      length (new_rpcs c c') =
        card {s. \<exists>i < length devices.
                replica_session env (options c) session_map (devices ! i) = Inr s} \<and>
      (\<forall>i < length devices. \<forall>j < length devices.
          device_target env (options c) (devices ! i) =
            device_target env (options c) (devices ! j) \<longrightarrow>
          (\<exists>call \<in> set (new_rpcs c c').
             served env (options c) session_map exec_ops computations devices i call
               (results ! i) \<and>
             served env (options c) session_map exec_ops computations devices j call
               (results ! j)))) \<and>
   (CreateExecuteOps env (options c) [] computation arguments explode_tuple devices =
      Inr (ops, smap) \<and>
    valid_runner_order env (options c) smap devices order \<and>
    ExecuteReplicated env order computation arguments devices explode_tuple c =
      (Inr replicated, c'') \<longrightarrow>
      length arguments = length devices \<and>
      length replicated = length devices \<and>
      (\<forall>i < length devices.
          node_for (options c) computation (arguments ! i) (devices ! i) explode_tuple (ops ! i) \<and>
          (\<exists>call \<in> set (new_rpcs c c'').
             served env (options c) smap ops (replicate (length devices) computation) devices i
               call (replicated ! i))))"
proof (intro conjI impI)
  assume a: "valid_runner_order env (options c) session_map devices order \<and>
    RunComputations env order session_map exec_ops computations devices c = (Inr results, c')"
  then have run: "RunComputations env order session_map exec_ops computations devices c
      = (Inr results, c')" by simp
  obtain m where sr: "session_replicas env (options c) session_map devices 0 [] = Inr m"
  proof (cases "session_replicas env (options c) session_map devices 0 []")
    case (Inl e)
    with run show ?thesis by (simp add: RunComputations_def)
  next
    case (Inr m)
    then show ?thesis by (rule that)
  qed
  with a have ord: "sort order = [0..<length m]" by (simp add: valid_runner_order_def)
  note res = RunComputations_result [OF run sr ord]
  show "length results = length devices" by (rule res(1))
  show "\<forall>i < length devices. \<exists>call \<in> set (new_rpcs c c').
          served env (options c) session_map exec_ops computations devices i call (results ! i)"
    by (rule res(2))
  show "distinct (map fst (new_rpcs c c'))" by (rule res(3))
  show "length (new_rpcs c c') =
        card {s. \<exists>i < length devices.
                replica_session env (options c) session_map (devices ! i) = Inr s}"
    by (rule res(4))
  show "\<forall>i < length devices. \<forall>j < length devices.
          device_target env (options c) (devices ! i) =
            device_target env (options c) (devices ! j) \<longrightarrow>
          (\<exists>call \<in> set (new_rpcs c c').
             served env (options c) session_map exec_ops computations devices i call
               (results ! i) \<and>
             served env (options c) session_map exec_ops computations devices j call
               (results ! j))"
  proof (intro allI impI)
    fix i j assume i: "i < length devices" and j: "j < length devices"
      and t: "device_target env (options c) (devices ! i) =
            device_target env (options c) (devices ! j)"
    from res(2) i obtain ci where ci: "ci \<in> set (new_rpcs c c')"
      "served env (options c) session_map exec_ops computations devices i ci (results ! i)"
      by blast
    from res(2) j obtain cj where cj: "cj \<in> set (new_rpcs c c')"
      "served env (options c) session_map exec_ops computations devices j cj (results ! j)"
      by blast
    have same: "replica_session env (options c) session_map (devices ! i) =
        replica_session env (options c) session_map (devices ! j)"
      unfolding replica_session_target t ..
    from ci(2) cj(2) same have "fst ci = fst cj" unfolding served_def by auto
    moreover from res(3) have "inj_on fst (set (new_rpcs c c'))" by (simp add: distinct_map)
    ultimately have "ci = cj" using ci(1) cj(1) by (auto dest: inj_onD)
    with ci cj show "\<exists>call \<in> set (new_rpcs c c').
             served env (options c) session_map exec_ops computations devices i call
               (results ! i) \<and>
             served env (options c) session_map exec_ops computations devices j call
               (results ! j)"
      by blast
  qed
next
  let ?n = "length devices"
  assume b: "CreateExecuteOps env (options c) [] computation arguments explode_tuple devices =
      Inr (ops, smap) \<and>
    valid_runner_order env (options c) smap devices order \<and>
    ExecuteReplicated env order computation arguments devices explode_tuple c =
      (Inr replicated, c'')"
  then have ce: "CreateExecuteOps env (options c) [] computation arguments explode_tuple devices =
      Inr (ops, smap)" by simp
  with b have run: "RunComputations env order smap ops (replicate ?n computation) devices c
      = (Inr replicated, c'')" by (simp add: ExecuteReplicated_def)
  obtain m where sr: "session_replicas env (options c) smap devices 0 [] = Inr m"
  proof (cases "session_replicas env (options c) smap devices 0 []")
    case (Inl e)
    with run show ?thesis by (simp add: RunComputations_def)
  next
    case (Inr m)
    then show ?thesis by (rule that)
  qed
  with b have ord: "sort order = [0..<length m]" by (simp add: valid_runner_order_def)
  note res = RunComputations_result [OF run sr ord]
  note nodes = CreateExecuteOps_nodes [OF ce]
  have le1: "?n \<le> length arguments" using RunComputations_bound [OF run sr ord] nodes by simp
  have le2: "length arguments \<le> ?n"
  proof -
    have "CreateExecuteOps env opts sm comp args ex devs = Inr p \<Longrightarrow> length args \<le> length devs"
      for env opts sm comp args ex devs p
    proof (induction env opts sm comp args ex devs arbitrary: p rule: CreateExecuteOps.induct)
      case (1 env opts session_map computation explode_tuple devices)
      then show ?case by simp
    next
      case (2 env opts session_map computation args arguments explode_tuple)
      then show ?case by simp
    next
      case (3 env opts session_map computation args arguments explode_tuple device devices)
      from "3.prems" obtain inputs xd s sm1 q where
        "GetArgumentsInputs args device = Inr inputs"
        "SwiftDeviceToXrtDevice opts device = Inr xd"
        "GetSessionForXrtDevice env opts SessionCache 0 xd session_map = Inr (s, sm1)"
        "CreateExecuteOps env opts sm1 computation arguments explode_tuple devices = Inr q"
        by (auto split: sum.splits)
      from "3.IH" [OF this(1,2,3) refl this(4)] show ?case by simp
    qed
    from this [OF ce] show ?thesis .
  qed
  show "length arguments = ?n" using le1 le2 by simp
  show "length replicated = ?n" by (rule res(1))
  show "\<forall>i < ?n.
          node_for (options c) computation (arguments ! i) (devices ! i) explode_tuple (ops ! i) \<and>
          (\<exists>call \<in> set (new_rpcs c c'').
             served env (options c) smap ops (replicate ?n computation) devices i
               call (replicated ! i))"
    using nodes res(2) le1 by auto
qed

text \<open>
  Three devices, two of them on one worker, and the runner of the other worker
  completes first: two sessions, two RPCs, and three result lists in the order of the
  devices. Two devices on one worker: one session, one RPC and two result lists in
  the order of the devices.
\<close>

theorem C7_replicas_grouped_by_session_witness:
  "CreateExecuteOps env0 (options client0) [] program0 arguments3 False devices3 =
     Inr (exec_ops3, session_map3) \<and>
   valid_runner_order env0 (options client0) session_map3 devices3 [1, 0] \<and>
   device_target env0 (options client0) (devices3 ! 0) =
     device_target env0 (options client0) (devices3 ! 1) \<and>
   fst (ExecuteReplicated env0 [1, 0] program0 arguments3 devices3 False client0) =
     Inr [[\<lparr>data_device = ''CPU:0'', data_shape = ArrayShape F32 [2], get_handle = 200\<rparr>,
           \<lparr>data_device = ''CPU:0'', data_shape = ArrayShape S32 [1], get_handle = 201\<rparr>],
          [\<lparr>data_device = ''CPU:1'', data_shape = ArrayShape F32 [2], get_handle = 202\<rparr>,
           \<lparr>data_device = ''CPU:1'', data_shape = ArrayShape S32 [1], get_handle = 203\<rparr>],
          [\<lparr>data_device = ''TPU:0'', data_shape = ArrayShape F32 [2], get_handle = 100\<rparr>,
           \<lparr>data_device = ''TPU:0'', data_shape = ArrayShape S32 [1], get_handle = 101\<rparr>]] \<and>
   length (new_rpcs client0
     (snd (ExecuteReplicated env0 [1, 0] program0 arguments3 devices3 False client0))) = 2 \<and>
   node_for (options client0) program0 (arguments3 ! 2) (devices3 ! 2) False (exec_ops3 ! 2) \<and>
   fst (ExecuteReplicated env0 [0] program0 arguments0 [''CPU:0'', ''CPU:1''] False client0) =
     Inr [[\<lparr>data_device = ''CPU:0'', data_shape = ArrayShape F32 [2], get_handle = 100\<rparr>,
           \<lparr>data_device = ''CPU:0'', data_shape = ArrayShape S32 [1], get_handle = 101\<rparr>],
          [\<lparr>data_device = ''CPU:1'', data_shape = ArrayShape F32 [2], get_handle = 102\<rparr>,
           \<lparr>data_device = ''CPU:1'', data_shape = ArrayShape S32 [1], get_handle = 103\<rparr>]] \<and>
   map fst (new_rpcs client0
     (snd (ExecuteReplicated env0 [0] program0 arguments0 [''CPU:0'', ''CPU:1''] False client0)))
     = [1]"
proof -
  let ?run = "ExecuteReplicated env0 [1, 0] program0 arguments3 devices3 False client0"
  let ?results = "[[\<lparr>data_device = ''CPU:0'', data_shape = ArrayShape F32 [2], get_handle = 200\<rparr>,
           \<lparr>data_device = ''CPU:0'', data_shape = ArrayShape S32 [1], get_handle = 201\<rparr>],
          [\<lparr>data_device = ''CPU:1'', data_shape = ArrayShape F32 [2], get_handle = 202\<rparr>,
           \<lparr>data_device = ''CPU:1'', data_shape = ArrayShape S32 [1], get_handle = 203\<rparr>],
          [\<lparr>data_device = ''TPU:0'', data_shape = ArrayShape F32 [2], get_handle = 100\<rparr>,
           \<lparr>data_device = ''TPU:0'', data_shape = ArrayShape S32 [1], get_handle = 101\<rparr>]]"
  have o: "options client0 = options0" by (simp add: client0_def)
  have ce: "CreateExecuteOps env0 (options client0) [] program0 arguments3 False devices3 =
     Inr (exec_ops3, session_map3)" by code_simp
  have v: "valid_runner_order env0 (options client0) session_map3 devices3 [1, 0]" by code_simp
  have t: "device_target env0 (options client0) (devices3 ! 0) =
     device_target env0 (options client0) (devices3 ! 1)" by code_simp
  have r: "fst ?run = Inr ?results" by code_simp
  then have run: "?run = (Inr ?results, snd ?run)" by (simp add: prod_eq_iff)
  have rc: "RunComputations env0 [1, 0] session_map3 exec_ops3 (replicate (length devices3) program0)
      devices3 client0 = (Inr ?results, snd ?run)"
    using run ce by (simp add: ExecuteReplicated_def)
  have n: "length devices3 = 3" by (simp add: devices3_def)
  note inst = C7_replicas_grouped_by_session [where env = env0 and c = client0
      and session_map = session_map3 and devices = devices3 and order = "[1, 0]"
      and exec_ops = exec_ops3 and computations = "replicate (length devices3) program0"
      and results = "?results" and c' = "snd ?run"
      and computation = program0 and arguments = arguments3 and explode_tuple = False
      and ops = exec_ops3 and smap = session_map3
      and replicated = "?results" and c'' = "snd ?run"]
  note part1 = inst [THEN conjunct1]
  note part2 = inst [THEN conjunct2]
  from part1 v rc have cnt: "length (new_rpcs client0 (snd ?run)) =
        card {s. \<exists>i < length devices3.
                replica_session env0 (options client0) session_map3 (devices3 ! i) = Inr s}"
    by blast
  have rs: "replica_session env0 (options client0) session_map3 (devices3 ! 0) = Inr 1"
    "replica_session env0 (options client0) session_map3 (devices3 ! 1) = Inr 1"
    "replica_session env0 (options client0) session_map3 (devices3 ! 2) = Inr 2"
    by code_simp+
  have "{s. \<exists>i < length devices3.
          replica_session env0 (options client0) session_map3 (devices3 ! i) = Inr s} = {1, 2}"
  proof (intro set_eqI iffI)
    fix s assume "s \<in> {s. \<exists>i < length devices3.
          replica_session env0 (options client0) session_map3 (devices3 ! i) = Inr s}"
    then obtain i where i: "i < 3"
      "replica_session env0 (options client0) session_map3 (devices3 ! i) = Inr s"
      unfolding n by blast
    from i(1) consider "i = 0" | "i = 1" | "i = 2" by linarith
    then show "s \<in> {1, 2}" using i(2) rs by cases simp_all
  next
    fix s :: nat assume "s \<in> {1, 2}"
    then consider "s = 1" | "s = 2" by blast
    then show "s \<in> {s. \<exists>i < length devices3.
          replica_session env0 (options client0) session_map3 (devices3 ! i) = Inr s}"
    proof cases
      case 1
      with rs(1) n show ?thesis by (auto intro: exI [of _ 0])
    next
      case 2
      with rs(3) n show ?thesis by (auto intro: exI [of _ 2])
    qed
  qed
  with cnt have two: "length (new_rpcs client0 (snd ?run)) = 2" by simp
  from part2 ce v run have "\<forall>i < length devices3.
          node_for (options client0) program0 (arguments3 ! i) (devices3 ! i) False (exec_ops3 ! i) \<and>
          (\<exists>call \<in> set (new_rpcs client0 (snd ?run)).
             served env0 (options client0) session_map3 exec_ops3
               (replicate (length devices3) program0) devices3 i call (?results ! i))"
    by blast
  from this [rule_format, of 2] n
  have nf: "node_for (options client0) program0 (arguments3 ! 2) (devices3 ! 2) False (exec_ops3 ! 2)"
    by simp
  have r2: "fst (ExecuteReplicated env0 [0] program0 arguments0 [''CPU:0'', ''CPU:1''] False client0) =
     Inr [[\<lparr>data_device = ''CPU:0'', data_shape = ArrayShape F32 [2], get_handle = 100\<rparr>,
           \<lparr>data_device = ''CPU:0'', data_shape = ArrayShape S32 [1], get_handle = 101\<rparr>],
          [\<lparr>data_device = ''CPU:1'', data_shape = ArrayShape F32 [2], get_handle = 102\<rparr>,
           \<lparr>data_device = ''CPU:1'', data_shape = ArrayShape S32 [1], get_handle = 103\<rparr>]]"
    by code_simp
  have l2: "map fst (new_rpcs client0
     (snd (ExecuteReplicated env0 [0] program0 arguments0 [''CPU:0'', ''CPU:1''] False client0)))
     = [1]"
    by code_simp
  show ?thesis using ce v t r two nf r2 l2 by (intro conjI)
qed

section \<open>Chained execution and references to later operations\<close>




subsection \<open>The client-split mode\<close>


















section \<open>The compilation cache\<close>

lemma Cache_Add_lookup:
  assumes "0 < max_size" "map_of cache key = None"
  shows "map_of (fst (Cache_Add max_size key object cache)) key = Some object"
proof (cases "max_size < length cache + 1")
  case True
  with assms(1) have "cache \<noteq> []" by auto
  then have "butlast ((key, object) # cache) = (key, object) # butlast cache" by simp
  with True assms(2) show ?thesis by (simp add: Cache_Add_def)
next
  case False
  with assms(2) show ?thesis by (simp add: Cache_Add_def)
qed

lemma Cache_Get_hit:
  "map_of cache key = Some object \<Longrightarrow> fst (Cache_Get key cache) = Some object"
  by (simp add: Cache_Get_def)

lemma Cache_Get_miss:
  "map_of cache key = None \<Longrightarrow> Cache_Get key cache = (None, cache)"
  by (simp add: Cache_Get_def)

lemma compile_key_parts:
  assumes "compile_key env opts device devices instance = Inr key"
  shows "\<exists>result_shape. CreateXrtComputation env (instance_computation instance) devices
             (instance_output_shape instance) = Inr (snd key, result_shape) \<and>
           GetResourceDomain env opts device = Inr (fst key)"
proof (cases "CreateXrtComputation env (instance_computation instance) devices
             (instance_output_shape instance)")
  case (Inl e)
  with assms show ?thesis by (simp add: compile_key_def)
next
  case (Inr p)
  obtain ser shape where p: "p = (ser, shape)" by (cases p)
  with assms Inr show ?thesis
    by (cases "GetResourceDomain env opts device") (auto simp: compile_key_def)
qed

lemma builder_hit:
  assumes "compile_key env (options c) device devices (instances ! i) = Inr key"
    and "map_of (compilation_cache c) key = Some program"
  shows "\<exists>c'. builder env device devices instances i st c =
           (Inr (st\<lparr>builder_results := (builder_results st)[i := Some program]\<rparr>), c') \<and>
         rpc_log c' = rpc_log c \<and> scheduled c' = scheduled c"
proof -
  from compile_key_parts [OF assms(1)] obtain shape where k:
    "CreateXrtComputation env (instance_computation (instances ! i)) devices
       (instance_output_shape (instances ! i)) = Inr (snd key, shape)"
    "GetResourceDomain env (options c) device = Inr (fst key)" by blast
  have "Cache_Get (fst key, snd key) (compilation_cache c) =
      (Some program, (key, program) # filter (\<lambda>e. fst e \<noteq> key) (compilation_cache c))"
    using assms(2) by (simp add: Cache_Get_def)
  with k show ?thesis by (simp add: builder_def)
qed

lemma Compile_single_hit:
  assumes key: "compile_key env (options c) device devices instance = Inr key"
    and hit: "map_of (compilation_cache c) key = Some program"
  shows "\<exists>c'. Compile env [0] device devices [instance] c = (Inr [Some program], c') \<and>
           rpc_log c' = rpc_log c"
proof -
  let ?st0 = "\<lparr>builder_session_map = [], session_work_map = [],
                 cache_keys = replicate 1 None, program_shapes = replicate 1 None,
                 builder_results = replicate 1 None\<rparr>"
  let ?c0 = "Schedule (replicate 1 Builder) c"
  have c0: "options ?c0 = options c" "compilation_cache ?c0 = compilation_cache c"
    "rpc_log ?c0 = rpc_log c"
    by (simp_all add: Schedule_def)
  from builder_hit [of env ?c0 device devices "[instance]" 0 key program ?st0] key hit c0
  obtain c1 where b: "builder env device devices [instance] 0 ?st0 ?c0 =
      (Inr (?st0\<lparr>builder_results := (builder_results ?st0)[0 := Some program]\<rparr>), c1)"
    "rpc_log c1 = rpc_log c" by auto
  have "Compile env [0] device devices [instance] c =
      (Inr [Some program], Schedule (replicate 0 Runner) c1)"
    using b(1) by (simp add: Compile_def Let_def)
  moreover have "rpc_log (Schedule (replicate 0 Runner) c1) = rpc_log c"
    using b(2) by (simp add: Schedule_def)
  ultimately show ?thesis by blast
qed

lemma Compile_single_miss:
  assumes key: "compile_key env (options c) device devices instance = Inr key"
    and miss: "map_of (compilation_cache c) key = None"
    and cap: "0 < compilation_cache_size env"
    and run: "Compile env [0] device devices [instance] c = (Inr results, c')"
  shows "\<exists>program s. results = [Some program] \<and>
      new_rpcs c c' = [(s, XRTCompile [snd key],
                        Response True [Int64Scalar (computation_handle program)])] \<and>
      map_of (compilation_cache c') key = Some program \<and> options c' = options c"
proof -
  let ?st0 = "\<lparr>builder_session_map = [], session_work_map = [],
                 cache_keys = replicate 1 None, program_shapes = replicate 1 None,
                 builder_results = replicate 1 None\<rparr>"
  let ?c0 = "Schedule (replicate 1 Builder) c"
  have c0: "options ?c0 = options c" "compilation_cache ?c0 = compilation_cache c"
    "rpc_log ?c0 = rpc_log c"
    by (simp_all add: Schedule_def)
  from compile_key_parts [OF key] obtain shape where k:
    "CreateXrtComputation env (instance_computation instance) devices
       (instance_output_shape instance) = Inr (snd key, shape)"
    "GetResourceDomain env (options c) device = Inr (fst key)" by blast
  have get: "Cache_Get (fst key, snd key) (compilation_cache c) = (None, compilation_cache c)"
    using miss by (simp add: Cache_Get_def)
  obtain rb c1 where b: "builder env device devices [instance] 0 ?st0 ?c0 = (rb, c1)"
    by (cases "builder env device devices [instance] 0 ?st0 ?c0")
  have rb: "\<exists>st. rb = Inr st"
  proof (cases rb)
    case (Inl e)
    with run b show ?thesis by (simp add: Compile_def Let_def split: if_splits)
  next
    case (Inr st)
    then show ?thesis by blast
  qed
  then obtain st where st: "rb = Inr st" by blast
  obtain xd where xd: "SwiftDeviceToXrtDevice (options c) device = Inr xd"
  proof (cases "SwiftDeviceToXrtDevice (options c) device")
    case (Inl e)
    with b st k get c0 show ?thesis by (simp add: builder_def)
  next
    case (Inr xd)
    then show ?thesis by (rule that)
  qed
  obtain s sm where s: "GetSessionForXrtDevice env (options c) SessionCache 0 xd [] = Inr (s, sm)"
  proof (cases "GetSessionForXrtDevice env (options c) SessionCache 0 xd []")
    case (Inl e)
    with b st k get c0 xd show ?thesis by (simp add: builder_def)
  next
    case (Inr p)
    then show ?thesis by (cases p) (auto intro: that)
  qed
  from b st k get c0 xd s have st_eq: "st = \<lparr>builder_session_map = sm,
      session_work_map = [(s, [(snd key, 0)])], cache_keys = [Some key],
      program_shapes = [Some shape], builder_results = [None]\<rparr>" and c1: "c1 = ?c0"
    by (simp_all add: builder_def)
  let ?c2 = "Schedule (replicate 1 Runner) ?c0"
  have c2: "options ?c2 = options c" "compilation_cache ?c2 = compilation_cache c"
    "rpc_log ?c2 = rpc_log c"
    by (simp_all add: Schedule_def)
  obtain resp c3 where rn: "Run env s (XRTCompile [snd key]) ?c2 = (resp, c3)"
    by (cases "Run env s (XRTCompile [snd key]) ?c2")
  note rl = Run_log [OF rn]
  obtain fr results1 c4 where cr: "compile_runner env device devices [instance] st s
      [(snd key, 0)] [None] ?c2 = ((fr, results1), c4)"
    by (cases "compile_runner env device devices [instance] st s [(snd key, 0)] [None] ?c2") auto
  from run b st st_eq c1 cr have fin: "fr = None" "results = results1" "c' = c4"
    by (auto simp: Compile_def Let_def split: option.splits if_splits)
  have ok: "status_ok resp \<and> length (outputs resp) = 1"
  proof (rule ccontr)
    assume "\<not> (status_ok resp \<and> length (outputs resp) = 1)"
    with cr rn fin(1) show False
      by (auto simp: compile_runner_def feed_inputs_def split: if_splits)
  qed
  then obtain out where out: "outputs resp = [out]"
    by (cases "outputs resp") auto
  from cr rn ok out have stc: "store_computations env device devices [instance] st [out] [0]
      [None] c3 = ((fr, results1), c4)"
    by (simp add: compile_runner_def feed_inputs_def index_mapping_def)
  obtain h where h: "out = Int64Scalar h"
  proof (cases out)
    case (Int64Scalar h)
    then show ?thesis by (rule that)
  next
    case (Int64Vector hs)
    with stc st_eq fin(1) show ?thesis by simp
  next
    case (StringScalar str)
    with stc st_eq fin(1) show ?thesis by simp
  qed
  let ?program = "\<lparr>computation_source = instance_computation instance,
      program_shape_result = shape, computation_devices = devices,
      computation_handle = h, compilation_device = device\<rparr>"
  let ?added = "Cache_Add (compilation_cache_size env) key ?program (compilation_cache c3)"
  have cache3: "compilation_cache c3 = compilation_cache c" using rl c2 by simp
  from stc st_eq h have res: "results1 = [Some ?program]"
    and c4: "compilation_cache c4 = fst ?added \<and> options c4 = options c3 \<and> rpc_log c4 = rpc_log c3"
    by (auto simp: Let_def AddValue_def ReleaseXrtComputation_def ReleaseHandle_def
        split: option.splits if_splits)
  have look: "map_of (compilation_cache c4) key = Some ?program"
    using c4 cache3 Cache_Add_lookup [OF cap, of "compilation_cache c" key ?program] miss by simp
  have resp: "resp = Response True [Int64Scalar h]" using ok out h by (cases resp) simp
  have log: "rpc_log c4 = rpc_log c @ [(s, XRTCompile [snd key], resp)]"
    using c4 rl c2 by simp
  have "results = [Some ?program]" using res fin by simp
  moreover have "new_rpcs c c' = [(s, XRTCompile [snd key],
      Response True [Int64Scalar (computation_handle ?program)])]"
    using new_rpcs_append [OF log] fin resp by simp
  moreover have "map_of (compilation_cache c') key = Some ?program" using look fin by simp
  moreover have "options c' = options c" using c4 rl c2 fin by simp
  ultimately show ?thesis by blast
qed

end
